theory Spec2Isabelle
  imports Main "HOL-Library.Word" "HOL-Library.Multiset"
begin

unbundle bit_operations_syntax

section \<open>The load balancer engine (lb.go, strategy.go)\<close>

subsection \<open>Machine types and library routines the engine calls\<close>

type_synonym u8 = "8 word"
type_synonym u32 = "32 word"
type_synonym u64 = "64 word"

text \<open>
  A Go \<^verbatim>\<open>string\<close> is a sequence of bytes, as \<^typ>\<open>string\<close> is here. Go's \<^verbatim>\<open>int\<close>
  is modelled by \<^typ>\<open>int\<close> where it can be negative (ports, the cursors) and by
  \<^typ>\<open>nat\<close> for lengths and slice indices. A \<^verbatim>\<open>*Backend\<close> is modelled by the value it
  points to: the selection logic only reads \<^verbatim>\<open>Host\<close> and \<^verbatim>\<open>Port\<close>.
\<close>

datatype panic = IndexOutOfRange | DivideByZero | InvalidData string

text \<open>The \<^verbatim>\<open>%d\<close> verb of \<^verbatim>\<open>fmt\<close>: decimal digits, with a minus sign when negative.\<close>

fun digits :: "nat \<Rightarrow> string" where
  "digits n = (if n < 10 then [char_of (48 + n)] else digits (n div 10) @ [char_of (48 + n mod 10)])"

declare digits.simps [simp del]

definition fmt_d :: "int \<Rightarrow> string" where
  "fmt_d i = (if i < 0 then CHR ''-'' # digits (nat (- i)) else digits (nat i))"

text \<open>Go's \<^verbatim>\<open>%\<close> on \<^verbatim>\<open>int\<close> truncates towards zero: the result has the sign of the dividend.\<close>

definition go_rem :: "int \<Rightarrow> int \<Rightarrow> int" where
  "go_rem a b = sgn a * (\<bar>a\<bar> mod \<bar>b\<bar>)"

text \<open>
  \<^verbatim>\<open>sort.Search(n, f)\<close> of the Go standard library: a binary search for the smallest
  index in \<open>[0, n)\<close> at which \<open>f\<close> holds, \<open>n\<close> when there is none. The loop is
  \<^verbatim>\<open>for i < j { h := int(uint(i+j) >> 1); if !f(h) { i = h + 1 } else { j = h } }\<close>.
\<close>

function search_loop :: "(nat \<Rightarrow> bool) \<Rightarrow> nat \<Rightarrow> nat \<Rightarrow> nat" where
  "search_loop f i j =
     (if i < j then
        (let h = (i + j) div 2
         in if \<not> f h then search_loop f (h + 1) j else search_loop f i h)
      else i)"
  by pat_completeness auto
termination
  by (relation "measure (\<lambda>(f, i, j). j - i)") auto

declare search_loop.simps [simp del]

definition Search :: "nat \<Rightarrow> (nat \<Rightarrow> bool) \<Rightarrow> nat" where
  "Search n f = search_loop f 0 n"

text \<open>\<^verbatim>\<open>hash/fnv\<close>'s \<^verbatim>\<open>New32a\<close>, \<^verbatim>\<open>Write\<close> and \<^verbatim>\<open>Sum32\<close>: 32-bit FNV-1a over the bytes.\<close>

definition fnv32a :: "string \<Rightarrow> u32" where
  "fnv32a bs = foldl (\<lambda>h c. (h XOR word_of_nat (of_char c)) * 16777619) 2166136261 bs"

text \<open>
  \<^verbatim>\<open>crypto/sha256\<close>'s \<^verbatim>\<open>Sum256\<close> (FIPS 180-4), returned as the eight 32-bit words of
  the digest; \<^verbatim>\<open>binary.BigEndian.Uint32(sum[:4])\<close> is then the first of them.
\<close>

definition rotr :: "nat \<Rightarrow> u32 \<Rightarrow> u32" where
  "rotr n x = drop_bit n x OR push_bit (32 - n) x"

definition K256 :: "u32 list" where
  "K256 =
    [1116352408, 1899447441, 3049323471, 3921009573, 961987163, 1508970993, 2453635748, 2870763221,
     3624381080, 310598401, 607225278, 1426881987, 1925078388, 2162078206, 2614888103, 3248222580,
     3835390401, 4022224774, 264347078, 604807628, 770255983, 1249150122, 1555081692, 1996064986,
     2554220882, 2821834349, 2952996808, 3210313671, 3336571891, 3584528711, 113926993, 338241895,
     666307205, 773529912, 1294757372, 1396182291, 1695183700, 1986661051, 2177026350, 2456956037,
     2730485921, 2820302411, 3259730800, 3345764771, 3516065817, 3600352804, 4094571909, 275423344,
     430227734, 506948616, 659060556, 883997877, 958139571, 1322822218, 1537002063, 1747873779,
     1955562222, 2024104815, 2227730452, 2361852424, 2428436474, 2756734187, 3204031479, 3329325298]"

definition H256 :: "u32 list" where
  "H256 = [1779033703, 3144134277, 1013904242, 2773480762,
           1359893119, 2600822924, 528734635, 1541459225]"

definition sha_pad :: "string \<Rightarrow> u8 list" where
  "sha_pad msg =
     (let l = length msg;
          z = (119 - l mod 64) mod 64;
          bits = (word_of_nat (8 * l) :: u64)
      in map (\<lambda>c. word_of_nat (of_char c)) msg @ [0x80] @ replicate z 0 @
         map (\<lambda>i. ucast (drop_bit (8 * (7 - i)) bits)) [0..<8])"

fun be32 :: "u8 list \<Rightarrow> u32 list" where
  "be32 (a # b # c # d # rest) =
     (push_bit 24 (ucast a) OR push_bit 16 (ucast b) OR push_bit 8 (ucast c) OR ucast d) # be32 rest"
| "be32 _ = []"

fun schedule :: "nat \<Rightarrow> u32 list \<Rightarrow> u32 list" where
  "schedule 0 w = w"
| "schedule (Suc n) w =
     (let t = length w;
          w15 = w ! (t - 15); w2 = w ! (t - 2);
          s0 = rotr 7 w15 XOR rotr 18 w15 XOR drop_bit 3 w15;
          s1 = rotr 17 w2 XOR rotr 19 w2 XOR drop_bit 10 w2
      in schedule n (w @ [w ! (t - 16) + s0 + w ! (t - 7) + s1]))"

fun sha_round :: "u32 list \<Rightarrow> u32 \<times> u32 \<Rightarrow> u32 list" where
  "sha_round [a, b, c, d, e, f, g, h] (k, w) =
     (let S1 = rotr 6 e XOR rotr 11 e XOR rotr 25 e;
          ch = (e AND f) XOR (NOT e AND g);
          t1 = h + S1 + ch + k + w;
          S0 = rotr 2 a XOR rotr 13 a XOR rotr 22 a;
          mj = (a AND b) XOR (a AND c) XOR (b AND c);
          t2 = S0 + mj
      in [t1 + t2, a, b, c, d + t1, e, f, g])"
| "sha_round s _ = s"

definition sha_block :: "u32 list \<Rightarrow> u32 list \<Rightarrow> u32 list" where
  "sha_block hs blk = map2 (+) hs (foldl sha_round hs (zip K256 (schedule 48 blk)))"

fun sha_blocks :: "nat \<Rightarrow> u32 list \<Rightarrow> u32 list \<Rightarrow> u32 list" where
  "sha_blocks 0 hs ws = hs"
| "sha_blocks (Suc n) hs ws = sha_blocks n (sha_block hs (take 16 ws)) (drop 16 ws)"

definition Sum256 :: "string \<Rightarrow> u32 list" where
  "Sum256 msg = (let ws = be32 (sha_pad msg) in sha_blocks (length ws div 16) H256 ws)"

subsection \<open>Structs (lb.go)\<close>

record Backend =
  Host :: string
  Port :: int
  IsHealthy :: bool
  NumRequests :: int

text \<open>\<^verbatim>\<open>func (b *Backend) String() string { return fmt.Sprintf("%s:%d", b.Host, b.Port) }\<close>\<close>

definition Backend_String :: "Backend \<Rightarrow> string" where
  "Backend_String b = Host b @ '':'' @ fmt_d (Port b)"

text \<open>\<^verbatim>\<open>IncomingReq\<close> without its connection handle, which no strategy reads.\<close>

record IncomingReq =
  reqId :: string
  key :: string

subsection \<open>Simple hash, round robin and static strategies (strategy.go)\<close>

record SimpleHashStrategy =
  sh_Backends :: "Backend list"

record RRBalancingStrategy =
  rr_Index :: int
  rr_Backends :: "Backend list"

record StaticBalancingStrategy =
  st_Index :: int
  st_Backends :: "Backend list"

text \<open>An indexed read \<^verbatim>\<open>xs[i]\<close> with Go's bounds check.\<close>

definition index :: "'a list \<Rightarrow> int \<Rightarrow> panic + 'a" where
  "index xs i = (if 0 \<le> i \<and> i < int (length xs) then Inr (xs ! nat i) else Inl IndexOutOfRange)"

definition SimpleHash_Init :: "SimpleHashStrategy \<Rightarrow> Backend list \<Rightarrow> SimpleHashStrategy" where
  "SimpleHash_Init s bs = s\<lparr>sh_Backends := bs\<rparr>"

text \<open>
  \<^verbatim>\<open>idx := int(h.Sum32() % uint32(n))\<close>: the conversion \<^verbatim>\<open>uint32(n)\<close> keeps the low 32
  bits of the length, and a zero divisor panics.
\<close>

definition SimpleHash_GetNextBackend ::
  "SimpleHashStrategy \<Rightarrow> IncomingReq \<Rightarrow> panic + Backend option" where
  "SimpleHash_GetNextBackend s req =
     (let n = length (sh_Backends s)
      in if n = 0 then Inr None
         else if (word_of_nat n :: u32) = 0 then Inl DivideByZero
         else (let idx = uint (fnv32a (key req) mod (word_of_nat n :: u32))
               in case index (sh_Backends s) idx of
                    Inl p \<Rightarrow> Inl p
                  | Inr b \<Rightarrow> Inr (Some b)))"

definition SimpleHash_RegisterBackend :: "SimpleHashStrategy \<Rightarrow> Backend \<Rightarrow> SimpleHashStrategy" where
  "SimpleHash_RegisterBackend s b = s\<lparr>sh_Backends := sh_Backends s @ [b]\<rparr>"

definition RR_Init :: "RRBalancingStrategy \<Rightarrow> Backend list \<Rightarrow> RRBalancingStrategy" where
  "RR_Init s bs = s\<lparr>rr_Index := 0, rr_Backends := bs\<rparr>"

text \<open>
  \<^verbatim>\<open>s.Index = (s.Index + 1) % len(s.Backends); return s.Backends[s.Index]\<close>: the cursor is
  written before the read, so the new state is returned beside the result. (A panic at
  the read ends the goroutine; no state is returned then.)
\<close>

definition RR_GetNextBackend ::
  "RRBalancingStrategy \<Rightarrow> IncomingReq \<Rightarrow> panic + (Backend option \<times> RRBalancingStrategy)" where
  "RR_GetNextBackend s req =
     (if length (rr_Backends s) = 0 then Inr (None, s)
      else (let s' = s\<lparr>rr_Index := go_rem (rr_Index s + 1) (int (length (rr_Backends s)))\<rparr>
            in case index (rr_Backends s') (rr_Index s') of
                 Inl p \<Rightarrow> Inl p
               | Inr b \<Rightarrow> Inr (Some b, s')))"

definition RR_RegisterBackend :: "RRBalancingStrategy \<Rightarrow> Backend \<Rightarrow> RRBalancingStrategy" where
  "RR_RegisterBackend s b = s\<lparr>rr_Backends := rr_Backends s @ [b]\<rparr>"

definition Static_Init :: "StaticBalancingStrategy \<Rightarrow> Backend list \<Rightarrow> StaticBalancingStrategy" where
  "Static_Init s bs = s\<lparr>st_Index := 0, st_Backends := bs\<rparr>"

definition Static_GetNextBackend ::
  "StaticBalancingStrategy \<Rightarrow> IncomingReq \<Rightarrow> panic + Backend option" where
  "Static_GetNextBackend s req =
     (if length (st_Backends s) = 0 then Inr None
      else case index (st_Backends s) (st_Index s) of
             Inl p \<Rightarrow> Inl p
           | Inr b \<Rightarrow> Inr (Some b))"

definition Static_RegisterBackend :: "StaticBalancingStrategy \<Rightarrow> Backend \<Rightarrow> StaticBalancingStrategy" where
  "Static_RegisterBackend s b = s\<lparr>st_Backends := st_Backends s @ [b]\<rparr>"

subsection \<open>Consistent hashing (strategy.go)\<close>

record ConsistentHashStrategy =
  keys :: "u32 list"
  backends :: "Backend list"
  totalSlots :: u64

text \<open>
  \<^verbatim>\<open>chPos\<close>: the first four bytes of the SHA-256 digest, big endian, reduced modulo
  \<^verbatim>\<open>totalSlots\<close> unless that is zero.
\<close>

definition chPos :: "string \<Rightarrow> u64 \<Rightarrow> u32" where
  "chPos k slots =
     (let v = Sum256 k ! 0
      in if slots = 0 then v else ucast ((ucast v :: u64) mod slots))"

text \<open>
  \<^verbatim>\<open>insert\<close>: the position is the first index whose key is \<open>\<ge> k\<close>; at the end the
  pair is appended, otherwise \<^verbatim>\<open>append(s.keys[:i+1], s.keys[i:]...)\<close> shifts the tail
  right by one and slot \<open>i\<close> is overwritten. The same is done to the parallel slice
  \<^verbatim>\<open>backends\<close>, which the constructors keep as long as \<^verbatim>\<open>keys\<close>.
\<close>

definition insert_ch :: "ConsistentHashStrategy \<Rightarrow> u32 \<Rightarrow> Backend \<Rightarrow> ConsistentHashStrategy" where
  "insert_ch s k b =
     (let i = Search (length (keys s)) (\<lambda>i. keys s ! i \<ge> k)
      in if i = length (keys s)
         then s\<lparr>keys := keys s @ [k], backends := backends s @ [b]\<rparr>
         else s\<lparr>keys := (take (i + 1) (keys s) @ drop i (keys s))[i := k],
                backends := (take (i + 1) (backends s) @ drop i (backends s))[i := b]\<rparr>)"

text \<open>
  \<^verbatim>\<open>Init\<close> truncates both slices to length zero and inserts one position per backend,
  \<^verbatim>\<open>chPos(b.String(), s.totalSlots)\<close>, in the order of the list.
\<close>

definition CH_Init :: "ConsistentHashStrategy \<Rightarrow> Backend list \<Rightarrow> ConsistentHashStrategy" where
  "CH_Init s bs =
     foldl (\<lambda>s b. insert_ch s (chPos (Backend_String b) (totalSlots s)) b)
       (s\<lparr>keys := [], backends := []\<rparr>) bs"

definition CH_RegisterBackend :: "ConsistentHashStrategy \<Rightarrow> Backend \<Rightarrow> ConsistentHashStrategy" where
  "CH_RegisterBackend s b = insert_ch s (chPos (Backend_String b) (totalSlots s)) b"

text \<open>
  \<^verbatim>\<open>GetNextBackend\<close>: ``first node strictly to the right of slot; wrap''. The read
  \<^verbatim>\<open>s.backends[i%len(s.backends)]\<close> is always in range.
\<close>

definition CH_GetNextBackend :: "ConsistentHashStrategy \<Rightarrow> IncomingReq \<Rightarrow> Backend option" where
  "CH_GetNextBackend s req =
     (if length (backends s) = 0 then None
      else (let slot = chPos (key req) (totalSlots s);
                i = Search (length (keys s)) (\<lambda>i. keys s ! i > slot)
            in Some (backends s ! (i mod length (backends s)))))"

subsection \<open>The strategy interface and its constructors\<close>

datatype BalancingStrategy =
    SimpleHash SimpleHashStrategy
  | RoundRobin RRBalancingStrategy
  | Static StaticBalancingStrategy
  | ConsistentHash ConsistentHashStrategy

fun Init :: "BalancingStrategy \<Rightarrow> Backend list \<Rightarrow> BalancingStrategy" where
  "Init (SimpleHash s) bs = SimpleHash (SimpleHash_Init s bs)"
| "Init (RoundRobin s) bs = RoundRobin (RR_Init s bs)"
| "Init (Static s) bs = Static (Static_Init s bs)"
| "Init (ConsistentHash s) bs = ConsistentHash (CH_Init s bs)"

fun GetNextBackend ::
  "BalancingStrategy \<Rightarrow> IncomingReq \<Rightarrow> panic + (Backend option \<times> BalancingStrategy)" where
  "GetNextBackend (SimpleHash s) req =
     (case SimpleHash_GetNextBackend s req of Inl p \<Rightarrow> Inl p | Inr r \<Rightarrow> Inr (r, SimpleHash s))"
| "GetNextBackend (RoundRobin s) req =
     (case RR_GetNextBackend s req of Inl p \<Rightarrow> Inl p | Inr (r, s') \<Rightarrow> Inr (r, RoundRobin s'))"
| "GetNextBackend (Static s) req =
     (case Static_GetNextBackend s req of Inl p \<Rightarrow> Inl p | Inr r \<Rightarrow> Inr (r, Static s))"
| "GetNextBackend (ConsistentHash s) req = Inr (CH_GetNextBackend s req, ConsistentHash s)"

fun RegisterBackend :: "BalancingStrategy \<Rightarrow> Backend \<Rightarrow> BalancingStrategy" where
  "RegisterBackend (SimpleHash s) b = SimpleHash (SimpleHash_RegisterBackend s b)"
| "RegisterBackend (RoundRobin s) b = RoundRobin (RR_RegisterBackend s b)"
| "RegisterBackend (Static s) b = Static (Static_RegisterBackend s b)"
| "RegisterBackend (ConsistentHash s) b = ConsistentHash (CH_RegisterBackend s b)"

text \<open>The constructors: \<^verbatim>\<open>new(T)\<close> zeroes the struct, then \<^verbatim>\<open>Init\<close> runs.\<close>

definition NewSimpleHashStrategy :: "Backend list \<Rightarrow> SimpleHashStrategy" where
  "NewSimpleHashStrategy bs = SimpleHash_Init \<lparr>sh_Backends = []\<rparr> bs"

definition NewRRBalancingStrategy :: "Backend list \<Rightarrow> RRBalancingStrategy" where
  "NewRRBalancingStrategy bs = RR_Init \<lparr>rr_Index = 0, rr_Backends = []\<rparr> bs"

definition NewStaticBalancingStrategy :: "Backend list \<Rightarrow> StaticBalancingStrategy" where
  "NewStaticBalancingStrategy bs = Static_Init \<lparr>st_Index = 0, st_Backends = []\<rparr> bs"

definition NewConsistentHashStrategy :: "Backend list \<Rightarrow> ConsistentHashStrategy" where
  "NewConsistentHashStrategy bs = CH_Init \<lparr>keys = [], backends = [], totalSlots = 2 ^ 32\<rparr> bs"

subsection \<open>The balancer and its control plane (lb.go)\<close>

record LB =
  lb_backends :: "Backend list"
  strategy :: BalancingStrategy
  demoKeys :: "string list"

datatype EventData = DataBackend Backend | DataInt int | DataString string | DataNil

record Event =
  EventName :: string
  Data :: EventData

definition CMD_Exit :: string where "CMD_Exit = ''exit''"
definition CMD_BackendAdd :: string where "CMD_BackendAdd = ''backend:add''"
definition CMD_BackendRemove :: string where "CMD_BackendRemove = ''backend:remove''"
definition CMD_StrategyChange :: string where "CMD_StrategyChange = ''strategy:change''"
definition CMD_ShowMapping :: string where "CMD_ShowMapping = ''mapping:show''"

text \<open>
  What the control plane writes to the log, one constructor per format string:
  \<^verbatim>\<open>"=== %s ==="\<close>, \<^verbatim>\<open>"key=%-12s  %s -> %s%s"\<close> (the flag is \<^verbatim>\<open>"  <-- MOVED"\<close> or empty),
  \<^verbatim>\<open>"key=%-12s  -> %s"\<close>, \<^verbatim>\<open>"moved=%d/%d keys"\<close>, \<^verbatim>\<open>"no backend found on port %d"\<close> and
  \<^verbatim>\<open>"Gracefully terminating ..."\<close>.
\<close>

datatype LogLine =
    LogBanner string
  | LogRow string string string bool
  | LogRowShow string string
  | LogMoved nat nat
  | LogNoBackend int
  | LogTerminating

text \<open>A read \<^verbatim>\<open>m[k]\<close> of a \<^verbatim>\<open>map[string]string\<close>: the empty string when the key is missing.\<close>

definition map_read :: "(string \<rightharpoonup> string) \<Rightarrow> string \<Rightarrow> string" where
  "map_read m k = (case m k of None \<Rightarrow> [] | Some v \<Rightarrow> v)"

text \<open>
  \<^verbatim>\<open>snapshot\<close> asks the active strategy for a backend once per demo key, through the
  same \<^verbatim>\<open>GetNextBackend\<close> that serves live traffic, so the strategy's state after the
  loop is part of the result.
\<close>

fun snapshot_loop ::
  "BalancingStrategy \<Rightarrow> string list \<Rightarrow> (string \<rightharpoonup> string) \<Rightarrow>
   panic + ((string \<rightharpoonup> string) \<times> BalancingStrategy)" where
  "snapshot_loop st [] m = Inr (m, st)"
| "snapshot_loop st (k # ks) m =
     (case GetNextBackend st \<lparr>reqId = [], key = k\<rparr> of
        Inl p \<Rightarrow> Inl p
      | Inr (b, st') \<Rightarrow>
          snapshot_loop st' ks
            (m(k \<mapsto> (case b of Some b' \<Rightarrow> Backend_String b' | None \<Rightarrow> ''<nil>''))))"

definition snapshot :: "LB \<Rightarrow> panic + ((string \<rightharpoonup> string) \<times> LB)" where
  "snapshot lb =
     (case snapshot_loop (strategy lb) (demoKeys lb) Map.empty of
        Inl p \<Rightarrow> Inl p
      | Inr (m, st) \<Rightarrow> Inr (m, lb\<lparr>strategy := st\<rparr>))"

text \<open>
  \<^verbatim>\<open>printRemap\<close>: the loop over the demo keys carries the counter \<^verbatim>\<open>moved\<close>; \<open>before\<close>
  may be the nil map (\<open>None\<close>), as it is for \<^verbatim>\<open>SHOW\<close>.
\<close>

fun remap_loop ::
  "(string \<rightharpoonup> string) option \<Rightarrow> (string \<rightharpoonup> string) \<Rightarrow> string list \<Rightarrow> nat \<Rightarrow>
   nat \<times> LogLine list" where
  "remap_loop before after [] moved = (moved, [])"
| "remap_loop before after (k # ks) moved =
     (let a = map_read after k
      in case before of
           Some bm \<Rightarrow>
             (let b = map_read bm k;
                  moved' = (if b \<noteq> a then moved + 1 else moved);
                  (n, ls) = remap_loop before after ks moved'
              in (n, LogRow k b a (b \<noteq> a) # ls))
         | None \<Rightarrow>
             (let (n, ls) = remap_loop before after ks moved
              in (n, LogRowShow k a # ls)))"

definition printRemap ::
  "LB \<Rightarrow> string \<Rightarrow> (string \<rightharpoonup> string) option \<Rightarrow> (string \<rightharpoonup> string) \<Rightarrow> LogLine list" where
  "printRemap lb what before after =
     (let (moved, rows) = remap_loop before after (demoKeys lb) 0
      in LogBanner what # rows @
         (if before \<noteq> None then [LogMoved moved (length (demoKeys lb))] else []))"

text \<open>\<^verbatim>\<open>removeBackend\<close>: the index of the first backend with that host and port, or \<open>-1\<close>.\<close>

fun find_idx :: "Backend list \<Rightarrow> nat \<Rightarrow> string \<Rightarrow> int \<Rightarrow> int" where
  "find_idx [] i host port = - 1"
| "find_idx (b # bs) i host port =
     (if Host b = host \<and> Port b = port then int i else find_idx bs (i + 1) host port)"

definition removeBackend :: "LB \<Rightarrow> string \<Rightarrow> int \<Rightarrow> bool \<times> LB" where
  "removeBackend lb host port =
     (let idx = find_idx (lb_backends lb) 0 host port
      in if idx = - 1 then (False, lb)
         else (True, lb\<lparr>lb_backends :=
                 take (nat idx) (lb_backends lb) @ drop (nat idx + 1) (lb_backends lb)\<rparr>))"

text \<open>The \<^verbatim>\<open>switch name\<close> of the strategy change.\<close>

definition strategy_by_name :: "string \<Rightarrow> Backend list \<Rightarrow> BalancingStrategy" where
  "strategy_by_name name bs =
     (if name = ''round-robin'' \<or> name = ''rr'' then RoundRobin (NewRRBalancingStrategy bs)
      else if name = ''static'' then Static (NewStaticBalancingStrategy bs)
      else if name = ''simple'' \<or> name = ''simple-hash'' then SimpleHash (NewSimpleHashStrategy bs)
      else if name = ''ch'' \<or> name = ''hash'' \<or> name = ''consistent-hash''
        then ConsistentHash (NewConsistentHashStrategy bs)
      else ConsistentHash (NewConsistentHashStrategy bs))"

text \<open>
  One turn of the control-plane loop of \<^verbatim>\<open>Run\<close>, for one event taken from the channel.
  The result is a panic, or whether the loop goes on, the balancer afterwards and the
  lines logged.
\<close>

definition handle_event :: "LB \<Rightarrow> Event \<Rightarrow> panic + (bool \<times> LB \<times> LogLine list)" where
  "handle_event lb ev =
     (if EventName ev = CMD_Exit then Inr (False, lb, [LogTerminating])
      else if EventName ev = CMD_BackendAdd then
        (case snapshot lb of
           Inl p \<Rightarrow> Inl p
         | Inr (before, lb1) \<Rightarrow>
             (case Data ev of
                DataBackend backend \<Rightarrow>
                  (let lb2 = lb1\<lparr>lb_backends := lb_backends lb1 @ [backend]\<rparr>;
                       lb3 = lb2\<lparr>strategy := Init (strategy lb2) (lb_backends lb2)\<rparr>
                   in case snapshot lb3 of
                        Inl p \<Rightarrow> Inl p
                      | Inr (after, lb4) \<Rightarrow>
                          Inr (True, lb4, printRemap lb4 ''ADD'' (Some before) after))
              | _ \<Rightarrow> Inl (InvalidData ''invalid backend data'')))
      else if EventName ev = CMD_BackendRemove then
        (case snapshot lb of
           Inl p \<Rightarrow> Inl p
         | Inr (before, lb1) \<Rightarrow>
             (case Data ev of
                DataInt port \<Rightarrow>
                  (case removeBackend lb1 ''localhost'' port of
                     (True, lb2) \<Rightarrow>
                       (let lb3 = lb2\<lparr>strategy := Init (strategy lb2) (lb_backends lb2)\<rparr>
                        in case snapshot lb3 of
                             Inl p \<Rightarrow> Inl p
                           | Inr (after, lb4) \<Rightarrow>
                               Inr (True, lb4, printRemap lb4 ''REMOVE'' (Some before) after))
                   | (False, lb2) \<Rightarrow> Inr (True, lb2, [LogNoBackend port]))
              | _ \<Rightarrow> Inl (InvalidData ''invalid remove data'')))
      else if EventName ev = CMD_StrategyChange then
        (case snapshot lb of
           Inl p \<Rightarrow> Inl p
         | Inr (before, lb1) \<Rightarrow>
             (case Data ev of
                DataString name \<Rightarrow>
                  (let lb2 = lb1\<lparr>strategy := strategy_by_name name (lb_backends lb1)\<rparr>
                   in case snapshot lb2 of
                        Inl p \<Rightarrow> Inl p
                      | Inr (after, lb3) \<Rightarrow>
                          Inr (True, lb3,
                               printRemap lb3 (''STRATEGY:'' @ name) (Some before) after))
              | _ \<Rightarrow> Inl (InvalidData ''invalid strategy name'')))
      else if EventName ev = CMD_ShowMapping then
        (case snapshot lb of
           Inl p \<Rightarrow> Inl p
         | Inr (cur, lb1) \<Rightarrow> Inr (True, lb1, printRemap lb1 ''SHOW'' None cur))
      else Inr (True, lb, []))"

text \<open>
  The control-plane goroutine of \<^verbatim>\<open>Run\<close>: events are handled one at a time, in the order
  they arrive, until \<^verbatim>\<open>exit\<close> or a panic.
\<close>

fun run_events :: "LB \<Rightarrow> Event list \<Rightarrow> panic + LB" where
  "run_events lb [] = Inr lb"
| "run_events lb (ev # evs) =
     (case handle_event lb ev of
        Inl p \<Rightarrow> Inl p
      | Inr (go, lb', lg) \<Rightarrow> if go then run_events lb' evs else Inr lb')"

text \<open>\<^verbatim>\<open>InitLB\<close>: four seed backends, the consistent-hash ring, twelve demo keys.\<close>

definition seed :: "int \<Rightarrow> Backend" where
  "seed p = \<lparr>Host = ''localhost'', Port = p, IsHealthy = True, NumRequests = 0\<rparr>"

definition InitLB :: LB where
  "InitLB =
     (let bs = [seed 8081, seed 8082, seed 8083, seed 8084]
      in \<lparr>lb_backends = bs,
          strategy = ConsistentHash (NewConsistentHashStrategy bs),
          demoKeys = [''10.0.0.1'', ''10.0.0.2'', ''10.0.0.3'', ''10.0.0.4'',
                      ''10.0.0.5'', ''10.0.0.6'', ''10.0.0.7'', ''10.0.0.8'',
                      ''10.0.0.9'', ''10.0.0.10'', ''10.0.0.11'', ''10.0.0.12'']\<rparr>)"

section \<open>The visualizer's routing logic (frontend/src/logic/hashing.ts, App.tsx)\<close>

text \<open>
  A JavaScript string is a sequence of UTF-16 code units, which \<^verbatim>\<open>charCodeAt\<close> reads.
  Array lengths and indices are \<^typ>\<open>nat\<close>; ring arrays are far shorter than \<open>2\<^sup>3\<^sup>1\<close>
  entries, where \<^verbatim>\<open>(lo + hi) >>> 1\<close> is the exact half of the sum.
\<close>

type_synonym jsstring = "16 word list"

definition js :: "string \<Rightarrow> jsstring" where
  "js s = map (\<lambda>c. word_of_nat (of_char c)) s"

record Server =
  srv_id :: jsstring
  srv_port :: int
  healthy :: bool

text \<open>A server as \<^verbatim>\<open>initServers\<close> and \<^verbatim>\<open>addServer\<close> make it: \<^verbatim>\<open>id: `localhost:${port}`\<close>.\<close>

definition srv :: "int \<Rightarrow> Server" where
  "srv p = \<lparr>srv_id = js (''localhost:'' @ fmt_d p), srv_port = p, healthy = True\<rparr>"

text \<open>
  \<^verbatim>\<open>fnv1a\<close>: \<^verbatim>\<open>h ^= c; h = (h + ((h << 1) + (h << 4) + (h << 7) + (h << 8) + (h << 24))) >>> 0\<close>.
  The shifts and the xor work on 32-bit integers, the sum is exact, and \<^verbatim>\<open>>>> 0\<close>
  reduces it modulo \<open>2\<^sup>3\<^sup>2\<close>.
\<close>

definition fnv1a :: "jsstring \<Rightarrow> u32" where
  "fnv1a str =
     foldl (\<lambda>h c. (let h' = h XOR ucast c
                   in h' + (push_bit 1 h' + push_bit 4 h' + push_bit 7 h' + push_bit 8 h'
                            + push_bit 24 h')))
       0x811c9dc5 str"

definition hash32 :: "jsstring \<Rightarrow> u32" where
  "hash32 str = fnv1a str"

definition REPLICAS :: nat where
  "REPLICAS = 64"

record RingPair =
  pkey :: u32
  server :: Server

text \<open>The template \<^verbatim>\<open>`${s.id}#${r}`\<close>.\<close>

definition replica_label :: "Server \<Rightarrow> nat \<Rightarrow> jsstring" where
  "replica_label s r = srv_id s @ js ''#'' @ js (digits r)"

text \<open>
  \<^verbatim>\<open>ringPositions\<close>: the pairs are pushed server by server, replica by replica, and then
  sorted by key with \<^verbatim>\<open>Array.prototype.sort\<close>, which is stable.
\<close>

definition ringPositions :: "Server list \<Rightarrow> RingPair list" where
  "ringPositions servers =
     sort_key pkey
       (concat (map (\<lambda>s. map (\<lambda>r. \<lparr>pkey = hash32 (replica_label s r), server = s\<rparr>)
                               [0..<REPLICAS]) servers))"

function pick_loop :: "RingPair list \<Rightarrow> u32 \<Rightarrow> nat \<Rightarrow> nat \<Rightarrow> nat" where
  "pick_loop pairs slot lo hi =
     (if lo < hi then
        (let mid = (lo + hi) div 2
         in if pkey (pairs ! mid) \<ge> slot then pick_loop pairs slot lo mid
            else pick_loop pairs slot (mid + 1) hi)
      else lo)"
  by pat_completeness auto
termination
  by (relation "measure (\<lambda>(pairs, slot, lo, hi). hi - lo)") auto

declare pick_loop.simps [simp del]

definition chPickServer :: "Server list \<Rightarrow> jsstring \<Rightarrow> Server option" where
  "chPickServer servers keyStr =
     (if length servers = 0 then None
      else (let pairs = ringPositions servers;
                slot = hash32 keyStr;
                lo = pick_loop pairs slot 0 (length pairs);
                i = lo mod length pairs
            in Some (server (pairs ! i))))"

text \<open>
  The churn table of \<^verbatim>\<open>App.tsx\<close>. A mapping object is the list of its own properties
  in enumeration order; reading a missing property gives \<^verbatim>\<open>undefined\<close> (\<open>None\<close>).
  \<^verbatim>\<open>Array.from(new Set(xs))\<close> keeps the first occurrence of each key.
\<close>

type_synonym Mapping = "(jsstring \<times> jsstring) list"

record DiffRow =
  row_k :: jsstring
  row_b :: "jsstring option"
  row_a :: "jsstring option"
  changed :: bool

record DiffResult =
  moved :: nat
  total_keys :: nat
  rows :: "DiffRow list"

definition uniq :: "'a list \<Rightarrow> 'a list" where
  "uniq xs = rev (remdups (rev xs))"

fun diff_rows :: "Mapping \<Rightarrow> Mapping \<Rightarrow> jsstring list \<Rightarrow> nat \<Rightarrow> nat \<times> DiffRow list" where
  "diff_rows beforeMap afterMap [] n = (n, [])"
| "diff_rows beforeMap afterMap (k # ks) n =
     (let b = map_of beforeMap k;
          a = map_of afterMap k;
          c = (b \<noteq> a);
          n' = (if c then n + 1 else n);
          (m, rs) = diff_rows beforeMap afterMap ks n'
      in (m, \<lparr>row_k = k, row_b = b, row_a = a, changed = c\<rparr> # rs))"

definition diff :: "Mapping option \<Rightarrow> Mapping option \<Rightarrow> DiffResult option" where
  "diff beforeMap afterMap =
     (case (beforeMap, afterMap) of
        (Some bm, Some am) \<Rightarrow>
          (let ks = uniq (map fst bm @ map fst am);
               (n, rs) = diff_rows bm am ks 0
           in Some \<lparr>moved = n, total_keys = length ks, rows = rs\<rparr>)
      | _ \<Rightarrow> None)"

section \<open>Notions used in the statements\<close>

subsection \<open>Rings\<close>

text \<open>
  The ring of the engine is its two parallel slices read as one list of entries
  (position, backend). Its invariant: the positions are sorted and the slices are
  equally long. \<open>entry\<close> is the entry \<^verbatim>\<open>Init\<close> makes for a backend, \<open>init_loop\<close> the loop
  of \<^verbatim>\<open>Init\<close> started in any state. The ring of the visualizer is \<^verbatim>\<open>ringPositions\<close> read
  the same way; \<open>replicas_of\<close> are the 64 pairs pushed for one server.
\<close>

definition ring :: "ConsistentHashStrategy \<Rightarrow> (u32 \<times> Backend) list" where
  "ring s = zip (keys s) (backends s)"

definition ch_inv :: "ConsistentHashStrategy \<Rightarrow> bool" where
  "ch_inv s \<longleftrightarrow> sorted (keys s) \<and> length (keys s) = length (backends s)"

definition entry :: "u64 \<Rightarrow> Backend \<Rightarrow> u32 \<times> Backend" where
  "entry slots b = (chPos (Backend_String b) slots, b)"

definition init_loop :: "ConsistentHashStrategy \<Rightarrow> Backend list \<Rightarrow> ConsistentHashStrategy" where
  "init_loop s0 bs = foldl (\<lambda>s b. insert_ch s (chPos (Backend_String b) (totalSlots s)) b) s0 bs"

definition ts_ring :: "Server list \<Rightarrow> (u32 \<times> Server) list" where
  "ts_ring servers = map (\<lambda>p. (pkey p, server p)) (ringPositions servers)"

definition replicas_of :: "Server \<Rightarrow> RingPair list" where
  "replicas_of s = map (\<lambda>r. \<lparr>pkey = hash32 (srv_id s @ js ''#'' @ js (digits r)), server = s\<rparr>) [0..<64]"

text \<open>
  The lookup rule in the words of the specification, \<open>clockwise_ge\<close>: the first entry
  whose position is greater than or equal to the slot, entry 0 when there is none, and
  nothing on an empty ring. \<open>clockwise_gt\<close> is the same rule with ``strictly greater''.
  Both walk the ring from the front; neither is taken from the code.
\<close>

definition clockwise_ge :: "('p::linorder \<times> 'b) list \<Rightarrow> 'p \<Rightarrow> 'b option" where
  "clockwise_ge rg slot =
     (if rg = [] then None
      else case find (\<lambda>e. fst e \<ge> slot) rg of
             Some e \<Rightarrow> Some (snd e)
           | None \<Rightarrow> Some (snd (rg ! 0)))"

definition clockwise_gt :: "('p::linorder \<times> 'b) list \<Rightarrow> 'p \<Rightarrow> 'b option" where
  "clockwise_gt rg slot =
     (if rg = [] then None
      else case find (\<lambda>e. fst e > slot) rg of
             Some e \<Rightarrow> Some (snd e)
           | None \<Rightarrow> Some (snd (rg ! 0)))"

text \<open>What a binary search over \<open>[i, j)\<close> has established when it returns \<open>r\<close>.\<close>

definition search_post :: "(nat \<Rightarrow> bool) \<Rightarrow> nat \<Rightarrow> nat \<Rightarrow> nat \<Rightarrow> nat \<Rightarrow> bool" where
  "search_post f n i j r \<longleftrightarrow>
     i \<le> r \<and> r \<le> j \<and> (\<forall>k. k < r \<longrightarrow> \<not> f k) \<and> (\<forall>k. r \<le> k \<and> k < n \<longrightarrow> f k)"

subsection \<open>Strategies and runs\<close>

text \<open>
  The backend list a strategy selects from, and a run of successive
  \<^verbatim>\<open>GetNextBackend\<close> calls on the round-robin strategy, each on the state the call
  before it left.
\<close>

fun strategy_backends :: "BalancingStrategy \<Rightarrow> Backend list" where
  "strategy_backends (SimpleHash s) = sh_Backends s"
| "strategy_backends (RoundRobin s) = rr_Backends s"
| "strategy_backends (Static s) = st_Backends s"
| "strategy_backends (ConsistentHash s) = backends s"

fun rr_calls ::
  "RRBalancingStrategy \<Rightarrow> IncomingReq list \<Rightarrow> panic + (Backend option list \<times> RRBalancingStrategy)" where
  "rr_calls s [] = Inr ([], s)"
| "rr_calls s (req # reqs) =
     (case RR_GetNextBackend s req of
        Inl p \<Rightarrow> Inl p
      | Inr (r, s') \<Rightarrow>
          (case rr_calls s' reqs of
             Inl p \<Rightarrow> Inl p
           | Inr (rs, s'') \<Rightarrow> Inr (r # rs, s'')))"

text \<open>
  The states of a strategy in which \<^verbatim>\<open>GetNextBackend\<close> cannot panic: fewer than \<open>2\<^sup>3\<^sup>2\<close>
  backends under simple hash, the index within the list under round robin and static.
  \<^verbatim>\<open>Init\<close> and \<^verbatim>\<open>GetNextBackend\<close> keep a strategy in these states. Round robin is the
  one strategy whose state a call changes. \<open>step_ok st st'\<close> is what calls of
  \<^verbatim>\<open>GetNextBackend\<close> keep of a strategy: such a state, the backend list, what \<^verbatim>\<open>Init\<close>
  makes of it, and the whole state when there is no cursor.
\<close>

fun strategy_wf :: "BalancingStrategy \<Rightarrow> bool" where
  "strategy_wf (SimpleHash s) \<longleftrightarrow> length (sh_Backends s) < 2 ^ 32"
| "strategy_wf (RoundRobin s) \<longleftrightarrow>
     rr_Backends s = [] \<or> (0 \<le> rr_Index s \<and> rr_Index s < int (length (rr_Backends s)))"
| "strategy_wf (Static s) \<longleftrightarrow>
     st_Backends s = [] \<or> (0 \<le> st_Index s \<and> st_Index s < int (length (st_Backends s)))"
| "strategy_wf (ConsistentHash s) \<longleftrightarrow> True"

fun keeps_no_cursor :: "BalancingStrategy \<Rightarrow> bool" where
  "keeps_no_cursor (RoundRobin s) = False"
| "keeps_no_cursor st = True"

definition step_ok :: "BalancingStrategy \<Rightarrow> BalancingStrategy \<Rightarrow> bool" where
  "step_ok st st' \<longleftrightarrow>
     strategy_wf st' \<and> strategy_backends st' = strategy_backends st \<and>
     (\<forall>bs. Init st' bs = Init st bs) \<and> (keeps_no_cursor st \<longrightarrow> st' = st)"

subsection \<open>Reading the result of a snapshot or of a command\<close>

text \<open>
  The parts of a result, \<open>None\<close> standing for a panic: the strategy and the mapping a
  snapshot leaves, the topology and the log a command leaves.
\<close>

definition snapshot_strategy :: "LB \<Rightarrow> BalancingStrategy option" where
  "snapshot_strategy lb = (case snapshot lb of Inl p \<Rightarrow> None | Inr (m, lb') \<Rightarrow> Some (strategy lb'))"

definition snapshot_map :: "LB \<Rightarrow> (string \<rightharpoonup> string)" where
  "snapshot_map lb = (case snapshot lb of Inl p \<Rightarrow> Map.empty | Inr (m, lb') \<Rightarrow> m)"

definition outcome_backends :: "panic + (bool \<times> LB \<times> LogLine list) \<Rightarrow> Backend list option" where
  "outcome_backends r = (case r of Inl p \<Rightarrow> None | Inr (go, lb, lg) \<Rightarrow> Some (lb_backends lb))"

definition outcome_log :: "panic + (bool \<times> LB \<times> LogLine list) \<Rightarrow> LogLine list option" where
  "outcome_log r = (case r of Inl p \<Rightarrow> None | Inr (go, lb, lg) \<Rightarrow> Some lg)"

definition add_event :: "Backend \<Rightarrow> Event" where
  "add_event b = \<lparr>EventName = CMD_BackendAdd, Data = DataBackend b\<rparr>"

subsection \<open>Concrete states\<close>

text \<open>
  A round-robin strategy over three backends with the cursor at 1; a balancer with two
  backends under consistent hashing; and a balancer with five backends under round
  robin, the cursor at 0, as \<^verbatim>\<open>strat rr\<close>, \<^verbatim>\<open>add 8085\<close> and four \<^verbatim>\<open>show\<close> leave it.
\<close>

definition rr3 :: RRBalancingStrategy where
  "rr3 = \<lparr>rr_Index = 1, rr_Backends = [seed 8081, seed 8082, seed 8083]\<rparr>"

definition lb2 :: LB where
  "lb2 = \<lparr>lb_backends = [seed 8081, seed 8082],
          strategy = ConsistentHash (NewConsistentHashStrategy [seed 8081, seed 8082]),
          demoKeys = [''localhost:8081'']\<rparr>"

definition five :: "Backend list" where
  "five = [seed 8081, seed 8082, seed 8083, seed 8084, seed 8085]"

definition lb5 :: LB where
  "lb5 = \<lparr>lb_backends = five, strategy = RoundRobin (NewRRBalancingStrategy five),
          demoKeys = demoKeys InitLB\<rparr>"

text \<open>
  The \<^verbatim>\<open>mapping:show\<close> event, and the balancer with five backends under round robin with
  the cursor at \<open>c\<close>.
\<close>

definition show_event :: Event where
  "show_event = \<lparr>EventName = CMD_ShowMapping, Data = DataNil\<rparr>"

definition lbrr :: "nat \<Rightarrow> LB" where
  "lbrr c = \<lparr>lb_backends = five, strategy = RoundRobin \<lparr>rr_Index = int c, rr_Backends = five\<rparr>,
             demoKeys = demoKeys InitLB\<rparr>"

section \<open>Properties\<close>

subsection \<open>Binary search and ring insertion\<close>

lemma search_loop_spec:
  assumes "i \<le> j" "j \<le> n"
    and "\<forall>k. k < i \<longrightarrow> \<not> f k" and "\<forall>k. j \<le> k \<and> k < n \<longrightarrow> f k"
    and mono: "\<forall>a b. a \<le> b \<and> b < n \<and> f a \<longrightarrow> f b"
  shows "search_post f n i j (search_loop f i j)"
  using assms
proof (induction f i j rule: search_loop.induct)
  case (1 f i j)
  show ?case
  proof (cases "i < j")
    case False
    then have "search_loop f i j = i"
      by (subst search_loop.simps) simp
    with "1.prems" False show ?thesis by (simp add: search_post_def)
  next
    case True
    define h where "h = (i + j) div 2"
    have hb: "i \<le> h" "h < j" using True by (auto simp: h_def)
    show ?thesis
    proof (cases "f h")
      case fh: True
      have up: "\<forall>k. h \<le> k \<and> k < n \<longrightarrow> f k"
        using fh "1.prems"(5) by blast
      have eq: "search_loop f i j = search_loop f i h"
        using True fh by (subst search_loop.simps) (simp add: Let_def h_def)
      have "search_post f n i h (search_loop f i h)"
        using "1.IH"(2)[of h] True fh hb "1.prems" up by (simp add: h_def)
      then show ?thesis using hb eq by (simp add: search_post_def)
    next
      case nfh: False
      have low: "\<forall>k. k < h + 1 \<longrightarrow> \<not> f k"
      proof (intro allI impI)
        fix k assume "k < h + 1"
        then have "k \<le> h" by simp
        moreover have "h < n" using hb "1.prems"(2) by simp
        ultimately show "\<not> f k" using nfh "1.prems"(5) by blast
      qed
      have eq: "search_loop f i j = search_loop f (h + 1) j"
        using True nfh by (subst search_loop.simps) (simp add: Let_def h_def)
      have "search_post f n (h + 1) j (search_loop f (h + 1) j)"
        using "1.IH"(1)[of h] True nfh hb "1.prems" low by (simp add: h_def)
      then show ?thesis using hb eq by (simp add: search_post_def)
    qed
  qed
qed

lemma Search_takeWhile:
  assumes mono: "\<forall>a b. a \<le> b \<and> b < length xs \<and> \<not> P (xs ! a) \<longrightarrow> \<not> P (xs ! b)"
  shows "Search (length xs) (\<lambda>i. \<not> P (xs ! i)) = length (takeWhile P xs)"
proof -
  define r where "r = Search (length xs) (\<lambda>i. \<not> P (xs ! i))"
  have "search_post (\<lambda>i. \<not> P (xs ! i)) (length xs) 0 (length xs) r"
    unfolding r_def Search_def
    by (rule search_loop_spec) (use mono in auto)
  then have sp: "r \<le> length xs" "\<And>k. k < r \<Longrightarrow> P (xs ! k)" "r < length xs \<Longrightarrow> \<not> P (xs ! r)"
    by (auto simp: search_post_def)
  have "takeWhile P xs = take r xs"
    by (rule takeWhile_eq_take_P_nth) (use sp in auto)
  then show ?thesis using sp r_def by simp
qed

lemma Search_ge:
  fixes ks :: "u32 list"
  assumes "sorted ks"
  shows "Search (length ks) (\<lambda>i. ks ! i \<ge> k) = length (takeWhile (\<lambda>x. x < k) ks)"
proof -
  have m: "\<forall>a b. a \<le> b \<and> b < length ks \<and> \<not> ks ! a < k \<longrightarrow> \<not> ks ! b < k"
  proof (intro allI impI)
    fix a b assume h: "a \<le> b \<and> b < length ks \<and> \<not> ks ! a < k"
    then have "ks ! a \<le> ks ! b" using assms by (simp add: sorted_nth_mono)
    moreover have "k \<le> ks ! a" using h by (simp add: not_less)
    ultimately have "k \<le> ks ! b" by (rule order_trans[rotated])
    then show "\<not> ks ! b < k" by (simp add: not_less)
  qed
  have "(\<lambda>i. ks ! i \<ge> k) = (\<lambda>i. \<not> ks ! i < k)" by (simp add: not_less)
  then show ?thesis using Search_takeWhile[of ks "\<lambda>x. x < k", OF m] by simp
qed

lemma Search_gt:
  fixes ks :: "u32 list"
  assumes "sorted ks"
  shows "Search (length ks) (\<lambda>i. ks ! i > slot) = length (takeWhile (\<lambda>x. x \<le> slot) ks)"
proof -
  have m: "\<forall>a b. a \<le> b \<and> b < length ks \<and> \<not> ks ! a \<le> slot \<longrightarrow> \<not> ks ! b \<le> slot"
  proof (intro allI impI)
    fix a b assume h: "a \<le> b \<and> b < length ks \<and> \<not> ks ! a \<le> slot"
    then have "ks ! a \<le> ks ! b" using assms by (simp add: sorted_nth_mono)
    moreover have "slot < ks ! a" using h by (simp add: not_le)
    ultimately have "slot < ks ! b" by (rule less_le_trans[rotated])
    then show "\<not> ks ! b \<le> slot" by (simp add: not_le)
  qed
  have "(\<lambda>i. ks ! i > slot) = (\<lambda>i. \<not> ks ! i \<le> slot)" by (simp add: not_le)
  then show ?thesis using Search_takeWhile[of ks "\<lambda>x. x \<le> slot", OF m] by simp
qed

lemma shift_insert:
  assumes "i < length xs"
  shows "(take (Suc i) xs @ drop i xs)[i := x] = take i xs @ x # drop i xs"
proof -
  have "take (Suc i) xs = take i xs @ [xs ! i]"
    using assms by (simp add: take_Suc_conv_app_nth)
  moreover have "length (take i xs) = i" using assms by simp
  moreover have "((take i xs @ [xs ! i]) @ drop i xs)[length (take i xs) := x]
                 = take i xs @ x # drop i xs"
    by (simp only: append.assoc append_Cons append_Nil list_update_length)
  ultimately show ?thesis by simp
qed

lemma insort_key_takeWhile:
  "insort_key f x xs = takeWhile (\<lambda>y. f y < f x) xs @ x # dropWhile (\<lambda>y. f y < f x) xs"
  by (induction xs) auto

lemma takeWhile_zip_fst:
  "length ks = length bs \<Longrightarrow>
   length (takeWhile (\<lambda>y. P (fst y)) (zip ks bs)) = length (takeWhile P ks)"
  by (induction ks bs rule: list_induct2) auto

lemma take_drop_insort:
  "take (length (takeWhile (\<lambda>y. f y < f x) xs)) xs @ x #
   drop (length (takeWhile (\<lambda>y. f y < f x) xs)) xs = insort_key f x xs"
proof -
  have "take (length (takeWhile (\<lambda>y. f y < f x) xs)) xs = takeWhile (\<lambda>y. f y < f x) xs"
    by (rule takeWhile_eq_take[symmetric])
  moreover have "drop (length (takeWhile (\<lambda>y. f y < f x) xs)) xs = dropWhile (\<lambda>y. f y < f x) xs"
    by (rule dropWhile_eq_drop[symmetric])
  ultimately show ?thesis by (simp only: insort_key_takeWhile)
qed

lemma insert_ch_fields:
  fixes k :: u32
  assumes "ch_inv s"
  shows "keys (insert_ch s k b) =
           take (length (takeWhile (\<lambda>x. x < k) (keys s))) (keys s) @ k #
           drop (length (takeWhile (\<lambda>x. x < k) (keys s))) (keys s)"
    and "backends (insert_ch s k b) =
           take (length (takeWhile (\<lambda>x. x < k) (keys s))) (backends s) @ b #
           drop (length (takeWhile (\<lambda>x. x < k) (keys s))) (backends s)"
    and "totalSlots (insert_ch s k b) = totalSlots s"
proof -
  define r where "r = length (takeWhile (\<lambda>x. x < k) (keys s))"
  have srt: "sorted (keys s)" using assms by (simp add: ch_inv_def)
  have sr: "Search (length (keys s)) (\<lambda>i. keys s ! i \<ge> k) = r"
    unfolding r_def by (rule Search_ge[OF srt])
  have len: "length (backends s) = length (keys s)" using assms by (simp add: ch_inv_def)
  have rl: "r \<le> length (keys s)" by (simp add: r_def length_takeWhile_le)
  show "keys (insert_ch s k b) = take r (keys s) @ k # drop r (keys s)"
  proof (cases "r = length (keys s)")
    case True
    then show ?thesis by (simp add: insert_ch_def sr Let_def)
  next
    case False
    with rl have "r < length (keys s)" by simp
    then show ?thesis using False by (simp add: insert_ch_def sr Let_def shift_insert)
  qed
  show "backends (insert_ch s k b) = take r (backends s) @ b # drop r (backends s)"
  proof (cases "r = length (keys s)")
    case True
    then show ?thesis using len by (simp add: insert_ch_def sr Let_def)
  next
    case False
    with rl len have "r < length (backends s)" by simp
    then show ?thesis using False by (simp add: insert_ch_def sr Let_def shift_insert)
  qed
  show "totalSlots (insert_ch s k b) = totalSlots s"
    by (simp add: insert_ch_def Let_def)
qed

lemma keys_insert_ch:
  assumes "ch_inv s"
  shows "keys (insert_ch s k b) = insort k (keys s)"
  using insert_ch_fields(1)[OF assms, of k b] take_drop_insort[of "\<lambda>x. x" k "keys s"]
  by simp

lemma ch_inv_insert:
  assumes "ch_inv s"
  shows "ch_inv (insert_ch s k b)"
proof -
  have "sorted (keys (insert_ch s k b))"
    using assms by (simp add: keys_insert_ch ch_inv_def sorted_insort)
  moreover have "length (keys (insert_ch s k b)) = length (backends (insert_ch s k b))"
    using assms by (simp add: insert_ch_fields(1,2)[OF assms] ch_inv_def)
  ultimately show ?thesis by (simp add: ch_inv_def)
qed

lemma ring_insert:
  assumes "ch_inv s"
  shows "ring (insert_ch s k b) = insort_key fst (k, b) (ring s)"
proof -
  define r where "r = length (takeWhile (\<lambda>x. x < k) (keys s))"
  have len: "length (keys s) = length (backends s)" using assms by (simp add: ch_inv_def)
  have r2: "length (takeWhile (\<lambda>y. fst y < fst (k, b)) (ring s)) = r"
    unfolding ring_def r_def using takeWhile_zip_fst[OF len, of "\<lambda>x. x < k"] by simp
  have "ring (insert_ch s k b) =
          zip (take r (keys s) @ k # drop r (keys s)) (take r (backends s) @ b # drop r (backends s))"
    unfolding ring_def r_def by (simp only: insert_ch_fields(1,2)[OF assms])
  also have "\<dots> = take r (ring s) @ (k, b) # drop r (ring s)"
    using len by (simp add: ring_def take_zip drop_zip)
  also have "\<dots> = insort_key fst (k, b) (ring s)"
    using take_drop_insort[of fst "(k, b)" "ring s"] by (simp only: r2)
  finally show ?thesis .
qed

lemma foldl_insert_ch:
  "ch_inv s0 \<Longrightarrow>
     ch_inv (init_loop s0 bs) \<and> totalSlots (init_loop s0 bs) = totalSlots s0 \<and>
     ring (init_loop s0 bs) = foldr (insort_key fst) (rev (map (entry (totalSlots s0)) bs)) (ring s0)"
proof (induction bs arbitrary: s0)
  case Nil
  then show ?case by (simp add: init_loop_def)
next
  case (Cons b bs)
  let ?s = "insert_ch s0 (chPos (Backend_String b) (totalSlots s0)) b"
  have i: "ch_inv ?s" using Cons.prems by (rule ch_inv_insert)
  have t: "totalSlots ?s = totalSlots s0" using insert_ch_fields(3)[OF Cons.prems] by simp
  have r: "ring ?s = insort_key fst (entry (totalSlots s0) b) (ring s0)"
    using ring_insert[OF Cons.prems] by (simp add: entry_def)
  have u: "init_loop s0 (b # bs) = init_loop ?s bs" by (simp add: init_loop_def)
  from Cons.IH[OF i] t r u show ?case by simp
qed

lemma CH_Init_ring:
  "ring (CH_Init s bs) = sort_key fst (rev (map (entry (totalSlots s)) bs))"
  and CH_Init_inv: "ch_inv (CH_Init s bs)"
  and CH_Init_totalSlots: "totalSlots (CH_Init s bs) = totalSlots s"
proof -
  have e: "ch_inv (s\<lparr>keys := [], backends := []\<rparr>)" by (simp add: ch_inv_def)
  from foldl_insert_ch[OF e, of bs]
  show "ring (CH_Init s bs) = sort_key fst (rev (map (entry (totalSlots s)) bs))"
    and "ch_inv (CH_Init s bs)" and "totalSlots (CH_Init s bs) = totalSlots s"
    by (simp_all add: CH_Init_def init_loop_def ring_def sort_key_def)
qed

subsection \<open>The ring invariant\<close>

text \<open>
  Claim C10. After \<^verbatim>\<open>Init\<close> on any backend list, from any earlier state, the keys of
  the consistent-hash strategy are sorted in ascending order and there are exactly as
  many keys as backends; \<^verbatim>\<open>RegisterBackend\<close> keeps both facts.
\<close>

theorem ch_ring_invariant:
  "ch_inv (CH_Init s bs) \<and> (ch_inv s \<longrightarrow> ch_inv (CH_RegisterBackend s b))"
  by (simp add: CH_Init_inv CH_RegisterBackend_def ch_inv_insert)

theorem ch_ring_invariant_witness:
  "ch_inv \<lparr>keys = [5], backends = [seed 8081], totalSlots = 2 ^ 32\<rparr> \<and>
   ch_inv (CH_RegisterBackend \<lparr>keys = [5], backends = [seed 8081], totalSlots = 2 ^ 32\<rparr> (seed 8082))"
proof -
  have h: "ch_inv \<lparr>keys = [5], backends = [seed 8081], totalSlots = 2 ^ 32\<rparr>"
    by (simp add: ch_inv_def)
  with ch_ring_invariant[of "\<lparr>keys = [5], backends = [seed 8081], totalSlots = 2 ^ 32\<rparr>" "[]" "seed 8082"]
  show ?thesis by blast
qed

subsection \<open>Round robin\<close>

lemma go_rem_nonneg: "0 \<le> a \<Longrightarrow> 0 < b \<Longrightarrow> go_rem a b = a mod b"
  by (cases "a = 0") (simp_all add: go_rem_def)

lemma RR_step:
  assumes "c < length bs"
  shows "RR_GetNextBackend \<lparr>rr_Index = int c, rr_Backends = bs\<rparr> req =
           Inr (Some (bs ! (Suc c mod length bs)),
                \<lparr>rr_Index = int (Suc c mod length bs), rr_Backends = bs\<rparr>)"
proof -
  have K: "0 < length bs" using assms by (cases bs) simp_all
  have g: "go_rem (int c + 1) (int (length bs)) = int (Suc c mod length bs)"
    using K by (simp add: go_rem_nonneg zmod_int add.commute)
  have r: "Suc c mod length bs < length bs" using K by simp
  show ?thesis
    using K r by (simp add: RR_GetNextBackend_def Let_def g index_def)
qed

lemma rr_calls_run:
  assumes "c < length bs"
  shows "rr_calls \<lparr>rr_Index = int c, rr_Backends = bs\<rparr> reqs =
           Inr (map (\<lambda>i. Some (bs ! ((Suc c + i) mod length bs))) [0..<length reqs],
                \<lparr>rr_Index = int ((c + length reqs) mod length bs), rr_Backends = bs\<rparr>)"
  using assms
proof (induction reqs arbitrary: c)
  case Nil
  then show ?case by simp
next
  case (Cons req reqs)
  define c' where "c' = Suc c mod length bs"
  have "0 < length bs" using Cons.prems by (cases bs) simp_all
  then have c': "c' < length bs" by (simp add: c'_def)
  have st: "RR_GetNextBackend \<lparr>rr_Index = int c, rr_Backends = bs\<rparr> req =
      Inr (Some (bs ! c'), \<lparr>rr_Index = int c', rr_Backends = bs\<rparr>)"
    unfolding c'_def by (rule RR_step[OF Cons.prems])
  have a: "\<And>i. (Suc c' + i) mod length bs = (Suc c + Suc i) mod length bs"
  proof -
    fix i
    have "(Suc c' + i) mod length bs = (c' + Suc i) mod length bs" by simp
    also have "\<dots> = (Suc c + Suc i) mod length bs"
      unfolding c'_def by (rule mod_add_left_eq)
    finally show "(Suc c' + i) mod length bs = (Suc c + Suc i) mod length bs" .
  qed
  have b: "(c' + length reqs) mod length bs = (c + length (req # reqs)) mod length bs"
  proof -
    have "(c' + length reqs) mod length bs = (Suc c + length reqs) mod length bs"
      unfolding c'_def by (rule mod_add_left_eq)
    then show ?thesis by simp
  qed
  have m: "map (\<lambda>i. Some (bs ! ((Suc c + i) mod length bs))) [0..<length (req # reqs)] =
           Some (bs ! c') # map (\<lambda>i. Some (bs ! ((Suc c' + i) mod length bs))) [0..<length reqs]"
    unfolding a by (simp add: map_upt_Suc c'_def del: upt_Suc)
  show ?case
    unfolding m b[symmetric] using Cons.IH[OF c'] st by simp
qed

text \<open>
  Claim C8. With \<open>K > 0\<close> backends and the cursor in \<open>[0, K)\<close>, \<^verbatim>\<open>GetNextBackend\<close> of the
  round-robin strategy returns, whatever the request, the backend at position
  \<open>(Index + 1) mod K\<close> and stores that position in the cursor; \<open>K\<close> calls in a row
  return the backend list rotated by \<open>Index + 1\<close>, that is every backend once, in
  list order from the successor of the cursor, and leave the cursor where it was.
\<close>

theorem rr_cycle:
  assumes "rr_Backends s \<noteq> []" "0 \<le> rr_Index s" "rr_Index s < int (length (rr_Backends s))"
  shows "RR_GetNextBackend s req =
           Inr (Some (rr_Backends s ! (nat (rr_Index s + 1) mod length (rr_Backends s))),
                s\<lparr>rr_Index := (rr_Index s + 1) mod int (length (rr_Backends s))\<rparr>)
         \<and> (length reqs = length (rr_Backends s) \<longrightarrow>
              rr_calls s reqs = Inr (map Some (rotate (nat (rr_Index s + 1)) (rr_Backends s)), s))"
proof -
  define c where "c = nat (rr_Index s)"
  define bs where "bs = rr_Backends s"
  have s: "s = \<lparr>rr_Index = int c, rr_Backends = bs\<rparr>"
    using assms(2) by (simp add: c_def bs_def)
  have c: "c < length bs" using assms(2,3) by (simp add: c_def bs_def)
  have n: "nat (int c + 1) = Suc c" by simp
  have i: "(int c + 1) mod int (length bs) = int (Suc c mod length bs)"
    by (simp add: zmod_int add.commute)
  have one: "RR_GetNextBackend s req =
           Inr (Some (bs ! (Suc c mod length bs)),
                \<lparr>rr_Index = int (Suc c mod length bs), rr_Backends = bs\<rparr>)"
    unfolding s by (rule RR_step[OF c])
  have two: "rr_calls s reqs = Inr (map Some (rotate (Suc c) bs), s)" if len: "length reqs = length bs"
  proof -
    have "map (\<lambda>i. Some (bs ! ((Suc c + i) mod length bs))) [0..<length reqs]
          = map Some (rotate (Suc c) bs)"
    proof (rule nth_equalityI)
      show "length (map (\<lambda>i. Some (bs ! ((Suc c + i) mod length bs))) [0..<length reqs]) =
            length (map Some (rotate (Suc c) bs))" by (simp add: len)
    next
      fix i assume "i < length (map (\<lambda>i. Some (bs ! ((Suc c + i) mod length bs))) [0..<length reqs])"
      then have il: "i < length bs" by (simp add: len)
      have "rotate (Suc c) bs ! i = bs ! ((Suc c + i) mod length bs)"
        using il by (rule nth_rotate)
      then show "map (\<lambda>i. Some (bs ! ((Suc c + i) mod length bs))) [0..<length reqs] ! i =
            map Some (rotate (Suc c) bs) ! i"
        using il by (simp add: len del: rotate_Suc)
    qed
    moreover have "(c + length reqs) mod length bs = c" using c by (simp add: len)
    ultimately show ?thesis
      using rr_calls_run[OF c, of reqs] by (simp add: s del: rotate_Suc)
  qed
  show ?thesis
    using one two unfolding s by (simp add: n i del: rotate_Suc)
qed

theorem rr_cycle_witness:
  "rr_Backends rr3 \<noteq> [] \<and> 0 \<le> rr_Index rr3 \<and> rr_Index rr3 < int (length (rr_Backends rr3)) \<and>
   length [\<lparr>reqId = [], key = ''a''\<rparr>, \<lparr>reqId = [], key = ''b''\<rparr>, \<lparr>reqId = [], key = ''a''\<rparr>]
     = length (rr_Backends rr3) \<and>
   RR_GetNextBackend rr3 \<lparr>reqId = [], key = ''a''\<rparr> = Inr (Some (seed 8083), rr3\<lparr>rr_Index := 2\<rparr>) \<and>
   rr_calls rr3 [\<lparr>reqId = [], key = ''a''\<rparr>, \<lparr>reqId = [], key = ''b''\<rparr>, \<lparr>reqId = [], key = ''a''\<rparr>] =
     Inr ([Some (seed 8083), Some (seed 8081), Some (seed 8082)], rr3)"
proof -
  have h: "rr_Backends rr3 \<noteq> []" "0 \<le> rr_Index rr3" "rr_Index rr3 < int (length (rr_Backends rr3))"
    by (simp_all add: rr3_def)
  have l: "length [\<lparr>reqId = [], key = ''a''\<rparr>, \<lparr>reqId = [], key = ''b''\<rparr>, \<lparr>reqId = [], key = ''a''\<rparr>]
     = length (rr_Backends rr3)" by (simp add: rr3_def)
  have n: "nat (rr_Index rr3 + 1) = Suc (Suc 0)" by (simp add: rr3_def)
  have r: "rotate (Suc (Suc 0)) (rr_Backends rr3) = [seed 8083, seed 8081, seed 8082]"
    by (simp add: rr3_def)
  have x: "rr_Backends rr3 ! (Suc (Suc 0) mod length (rr_Backends rr3)) = seed 8083"
    by (simp add: rr3_def)
  have m: "(rr_Index rr3 + 1) mod int (length (rr_Backends rr3)) = 2" by (simp add: rr3_def)
  from rr_cycle[OF h, of "\<lparr>reqId = [], key = ''a''\<rparr>"
      "[\<lparr>reqId = [], key = ''a''\<rparr>, \<lparr>reqId = [], key = ''b''\<rparr>, \<lparr>reqId = [], key = ''a''\<rparr>]"]
  have "RR_GetNextBackend rr3 \<lparr>reqId = [], key = ''a''\<rparr> = Inr (Some (seed 8083), rr3\<lparr>rr_Index := 2\<rparr>) \<and>
    rr_calls rr3 [\<lparr>reqId = [], key = ''a''\<rparr>, \<lparr>reqId = [], key = ''b''\<rparr>, \<lparr>reqId = [], key = ''a''\<rparr>] =
     Inr ([Some (seed 8083), Some (seed 8081), Some (seed 8082)], rr3)"
    unfolding n r x m using l by (simp del: rr_calls.simps)
  with h l show ?thesis by blast
qed

subsection \<open>Churn count\<close>

lemma remap_loop_moved:
  "fst (remap_loop (Some b) a ks n) =
     n + length (filter (\<lambda>k. map_read b k \<noteq> map_read a k) ks)"
  by (induction ks arbitrary: n) (simp_all add: Let_def case_prod_beta)

lemma diff_rows_moved:
  "fst (diff_rows b a ks n) = n + length (filter (\<lambda>k. map_of b k \<noteq> map_of a k) ks)"
  by (induction ks arbitrary: n) (simp_all add: Let_def case_prod_beta)

lemma printRemap_last:
  "last (printRemap lb what (Some b) a) =
     LogMoved (fst (remap_loop (Some b) a (demoKeys lb) 0)) (length (demoKeys lb))"
  by (simp add: printRemap_def case_prod_beta)

text \<open>
  Claim C9. In \<^verbatim>\<open>printRemap\<close> and in the visualizer's \<^verbatim>\<open>diff\<close> the counter of moved
  keys is the number of keys whose before and after entries differ as strings, so
  comparing a mapping with itself counts no moved key: the last line logged is
  \<^verbatim>\<open>moved=0/n\<close>, and \<^verbatim>\<open>diff\<close> returns \<^verbatim>\<open>moved = 0\<close>.
\<close>

theorem diff_same_moves_nothing:
  "fst (remap_loop (Some b) a ks 0) = length (filter (\<lambda>k. map_read b k \<noteq> map_read a k) ks) \<and>
   fst (remap_loop (Some m) m ks 0) = 0 \<and>
   last (printRemap lb what (Some m) m) = LogMoved 0 (length (demoKeys lb)) \<and>
   fst (diff_rows bm am jks 0) = length (filter (\<lambda>k. map_of bm k \<noteq> map_of am k) jks) \<and>
   map_option moved (diff (Some jm) (Some jm)) = Some 0"
proof -
  have z: "fst (diff_rows jm jm (uniq (map fst jm @ map fst jm)) 0) = 0"
    by (simp add: diff_rows_moved)
  have "map_option moved (diff (Some jm) (Some jm)) = Some 0"
    using z by (simp add: diff_def Let_def case_prod_beta)
  then show ?thesis
    by (simp add: remap_loop_moved diff_rows_moved printRemap_last)
qed

subsection \<open>Clockwise lookup\<close>

lemma find_takeWhile:
  "find P xs =
     (if length (takeWhile (\<lambda>x. \<not> P x) xs) < length xs
      then Some (xs ! length (takeWhile (\<lambda>x. \<not> P x) xs)) else None)"
  by (induction xs) auto

lemma CH_lookup_gt:
  assumes "ch_inv s"
  shows "CH_GetNextBackend s req = clockwise_gt (ring s) (chPos (key req) (totalSlots s))"
proof (cases "backends s = []")
  case True
  then show ?thesis by (simp add: CH_GetNextBackend_def clockwise_gt_def ring_def)
next
  case False
  define slot where "slot = chPos (key req) (totalSlots s)"
  define r where "r = length (takeWhile (\<lambda>x. x \<le> slot) (keys s))"
  have len: "length (keys s) = length (backends s)" and srt: "sorted (keys s)"
    using assms by (simp_all add: ch_inv_def)
  have ne: "ring s \<noteq> []" "length (ring s) = length (backends s)"
    using False len by (auto simp: ring_def)
  have sr: "Search (length (keys s)) (\<lambda>i. keys s ! i > slot) = r"
    unfolding r_def by (rule Search_gt[OF srt])
  have go: "CH_GetNextBackend s req = Some (backends s ! (r mod length (backends s)))"
    using False by (simp add: CH_GetNextBackend_def Let_def slot_def[symmetric] sr)
  have rr: "length (takeWhile (\<lambda>e. \<not> slot < fst e) (ring s)) = r"
    unfolding ring_def r_def using takeWhile_zip_fst[OF len, of "\<lambda>x. x \<le> slot"]
    by (simp add: not_less)
  have rl: "r \<le> length (backends s)"
    using length_takeWhile_le[of "\<lambda>x. x \<le> slot" "keys s"] by (simp add: r_def len)
  show ?thesis
  proof (cases "r < length (backends s)")
    case True
    then have "find (\<lambda>e. slot < fst e) (ring s) = Some (ring s ! r)"
      using ne by (simp add: find_takeWhile rr)
    moreover have "snd (ring s ! r) = backends s ! r"
      using True len by (simp add: ring_def)
    ultimately show ?thesis
      using True ne by (simp add: go clockwise_gt_def slot_def[symmetric])
  next
    case nl: False
    with rl have e: "r = length (backends s)" by simp
    then have "find (\<lambda>e. slot < fst e) (ring s) = None"
      using ne by (simp add: find_takeWhile rr)
    moreover have "snd (ring s ! 0) = backends s ! 0"
      using False len by (simp add: ring_def)
    ultimately show ?thesis
      using ne e by (simp add: go clockwise_gt_def slot_def[symmetric])
  qed
qed

lemma pick_loop_search:
  "pick_loop pairs slot lo hi = search_loop (\<lambda>i. pkey (pairs ! i) \<ge> slot) lo hi"
proof (induction pairs slot lo hi rule: pick_loop.induct)
  case (1 pairs slot lo hi)
  show ?case
  proof (cases "lo < hi")
    case False
    then show ?thesis
      by (subst pick_loop.simps, subst search_loop.simps) simp
  next
    case True
    show ?thesis
    proof (cases "pkey (pairs ! ((lo + hi) div 2)) \<ge> slot")
      case ge: True
      with True "1.IH"(1)[OF True refl ge] show ?thesis
        by (subst pick_loop.simps, subst search_loop.simps) (simp add: Let_def)
    next
      case lt: False
      with True "1.IH"(2)[OF True refl lt] show ?thesis
        by (subst pick_loop.simps, subst search_loop.simps) (simp add: Let_def)
    qed
  qed
qed

lemma sorted_ringPositions: "sorted (map pkey (ringPositions servers))"
  by (simp add: ringPositions_def)

lemma length_ringPositions: "length (ringPositions servers) = REPLICAS * length servers"
  by (induction servers) (simp_all add: ringPositions_def)

lemma pick_loop_first:
  assumes "sorted (map pkey pairs)"
  shows "pick_loop pairs slot 0 (length pairs) = length (takeWhile (\<lambda>p. pkey p < slot) pairs)"
proof -
  have m: "\<forall>a b. a \<le> b \<and> b < length pairs \<and> \<not> pkey (pairs ! a) < slot \<longrightarrow> \<not> pkey (pairs ! b) < slot"
  proof (intro allI impI)
    fix a b assume h: "a \<le> b \<and> b < length pairs \<and> \<not> pkey (pairs ! a) < slot"
    then have "map pkey pairs ! a \<le> map pkey pairs ! b"
      using assms by (intro sorted_nth_mono) simp_all
    then have "pkey (pairs ! a) \<le> pkey (pairs ! b)" using h by simp
    moreover have "slot \<le> pkey (pairs ! a)" using h by (simp add: not_less)
    ultimately have "slot \<le> pkey (pairs ! b)" by (rule order_trans[rotated])
    then show "\<not> pkey (pairs ! b) < slot" by (simp add: not_less)
  qed
  have "(\<lambda>i. pkey (pairs ! i) \<ge> slot) = (\<lambda>i. \<not> pkey (pairs ! i) < slot)"
    by (simp add: not_less)
  then show ?thesis
    using Search_takeWhile[of pairs "\<lambda>p. pkey p < slot", OF m]
    by (simp add: pick_loop_search Search_def)
qed

lemma chPickServer_ge:
  "chPickServer servers keyStr = clockwise_ge (ts_ring servers) (hash32 keyStr)"
proof (cases "servers = []")
  case True
  then show ?thesis by (simp add: chPickServer_def clockwise_ge_def ts_ring_def ringPositions_def)
next
  case False
  define pairs where "pairs = ringPositions servers"
  define slot where "slot = hash32 keyStr"
  define r where "r = length (takeWhile (\<lambda>p. pkey p < slot) pairs)"
  have ne: "pairs \<noteq> []"
    using False length_ringPositions[of servers] by (auto simp: pairs_def REPLICAS_def)
  have srt: "sorted (map pkey pairs)" unfolding pairs_def by (rule sorted_ringPositions)
  have pk: "pick_loop pairs slot 0 (length pairs) = r"
    unfolding r_def by (rule pick_loop_first[OF srt])
  have ts: "chPickServer servers keyStr = Some (server (pairs ! (r mod length pairs)))"
    using False by (simp add: chPickServer_def Let_def pairs_def[symmetric] slot_def[symmetric] pk)
  have rr: "length (takeWhile (\<lambda>e. \<not> slot \<le> fst e) (map (\<lambda>p. (pkey p, server p)) pairs)) = r"
    by (simp add: r_def takeWhile_map comp_def not_le)
  have rl: "r \<le> length pairs" by (simp add: r_def length_takeWhile_le)
  show ?thesis
  proof (cases "r < length pairs")
    case True
    then have "find (\<lambda>e. slot \<le> fst e) (map (\<lambda>p. (pkey p, server p)) pairs)
                 = Some (map (\<lambda>p. (pkey p, server p)) pairs ! r)"
      by (simp add: find_takeWhile rr)
    then show ?thesis
      using True ne by (simp add: ts clockwise_ge_def ts_ring_def pairs_def[symmetric] slot_def[symmetric])
  next
    case nl: False
    with rl have e: "r = length pairs" by simp
    then have "find (\<lambda>e. slot \<le> fst e) (map (\<lambda>p. (pkey p, server p)) pairs) = None"
      by (simp add: find_takeWhile rr)
    then show ?thesis
      using ne e by (simp add: ts clockwise_ge_def ts_ring_def pairs_def[symmetric] slot_def[symmetric] nth_map)
  qed
qed

lemma seed_String:
  "Backend_String (seed 8081) = ''localhost:8081''"
  "Backend_String (seed 8082) = ''localhost:8082''"
  by (simp_all add: Backend_String_def seed_def fmt_d_def digits.simps char_of_def bit_Suc_0_iff)

lemma chPos_full: "chPos k (2 ^ 32) = Sum256 k ! 0"
proof -
  define v where "v = Sum256 k ! 0"
  have lt: "unat v < 2 ^ 32" using unsigned_less[of v] by simp
  have a: "unat (ucast v :: u64) = unat v"
    using lt by (simp add: unsigned_ucast_eq take_bit_eq_mod)
  have b: "unat ((ucast v :: u64) mod 2 ^ 32) = unat v"
    using lt by (simp add: unat_mod_distrib a)
  have "unat (ucast ((ucast v :: u64) mod 2 ^ 32) :: u32) = unat v"
    using lt b by (simp add: unsigned_ucast_eq take_bit_eq_mod)
  then have c: "(ucast ((ucast v :: u64) mod 2 ^ 32) :: u32) = v"
    by (simp add: word_unat_eq_iff)
  have "(2 ^ 32 :: u64) \<noteq> 0" by simp
  then show ?thesis
    using c by (simp add: chPos_def Let_def v_def)
qed

subsection \<open>Ring contents\<close>

lemma ringPositions_concat:
  "ringPositions servers = sort_key pkey (concat (map replicas_of servers))"
  by (simp add: ringPositions_def replicas_of_def[abs_def] REPLICAS_def replica_label_def)

lemma filter_replicas_of:
  "filter (\<lambda>p. server p = s) (replicas_of t) = (if t = s then replicas_of s else [])"
  by (auto simp: replicas_of_def filter_map comp_def)

lemma ringPositions_per_server:
  "mset (filter (\<lambda>p. server p = s) (ringPositions servers)) =
     repeat_mset (count_list servers s) (mset (replicas_of s))"
proof -
  have "mset (filter (\<lambda>p. server p = s) (concat (map replicas_of servers))) =
          repeat_mset (count_list servers s) (mset (replicas_of s))"
    by (induction servers) (simp_all add: filter_replicas_of)
  then show ?thesis
    by (simp add: ringPositions_concat filter_sort)
qed

lemma CH_Init_per_backend:
  "mset (filter (\<lambda>e. snd e = b) (ring (CH_Init s bs))) =
     replicate_mset (count_list bs b) (chPos (Backend_String b) (totalSlots s), b)"
proof -
  have "mset (filter (\<lambda>e. snd e = b) (map (entry (totalSlots s)) bs)) =
          replicate_mset (count_list bs b) (chPos (Backend_String b) (totalSlots s), b)"
    by (induction bs) (simp_all add: entry_def)
  then have "mset (filter (\<lambda>e. snd e = b) (rev (map (entry (totalSlots s)) bs))) =
          replicate_mset (count_list bs b) (chPos (Backend_String b) (totalSlots s), b)"
    by (simp only: rev_filter[symmetric] mset_rev)
  then show ?thesis
    by (simp only: CH_Init_ring filter_sort mset_sort)
qed

lemma CH_Init_lengths:
  "length (keys (CH_Init s bs)) = length bs" "length (backends (CH_Init s bs)) = length bs"
proof -
  have "length (ring (CH_Init s bs)) = length bs" by (simp add: CH_Init_ring)
  moreover have "length (keys (CH_Init s bs)) = length (backends (CH_Init s bs))"
    using CH_Init_inv[of s bs] by (simp add: ch_inv_def)
  ultimately show "length (keys (CH_Init s bs)) = length bs" "length (backends (CH_Init s bs)) = length bs"
    by (simp_all add: ring_def)
qed

text \<open>
  Claim C1, as amended. The visualizer's \<^verbatim>\<open>ringPositions\<close> holds, for each server, the
  64 pairs at the positions \<^verbatim>\<open>hash32(id + "#" + r)\<close>, \<open>r\<close> in \<open>[0, 64)\<close> (once per
  occurrence of the server in the list), sorted by position. The engine's
  \<^verbatim>\<open>ConsistentHashStrategy.Init\<close> holds, for each backend, one entry, at the position
  \<^verbatim>\<open>chPos(host:port)\<close> with no replica suffix, also sorted by position.
\<close>

theorem ring_entries_per_backend:
  "mset (filter (\<lambda>p. server p = sv) (ringPositions servers)) =
     repeat_mset (count_list servers sv) (mset (replicas_of sv)) \<and>
   length (replicas_of sv) = 64 \<and>
   length (ringPositions servers) = 64 * length servers \<and>
   sorted (map pkey (ringPositions servers)) \<and>
   mset (filter (\<lambda>e. snd e = b) (ring (CH_Init s bs))) =
     replicate_mset (count_list bs b) (chPos (Backend_String b) (totalSlots s), b) \<and>
   length (keys (CH_Init s bs)) = length bs \<and>
   sorted (keys (CH_Init s bs))"
proof (intro conjI)
  show "mset (filter (\<lambda>p. server p = sv) (ringPositions servers)) =
     repeat_mset (count_list servers sv) (mset (replicas_of sv))"
    by (rule ringPositions_per_server)
  show "length (replicas_of sv) = 64" by (simp add: replicas_of_def)
  show "length (ringPositions servers) = 64 * length servers"
    by (simp add: length_ringPositions REPLICAS_def)
  show "sorted (map pkey (ringPositions servers))" by (rule sorted_ringPositions)
  show "mset (filter (\<lambda>e. snd e = b) (ring (CH_Init s bs))) =
     replicate_mset (count_list bs b) (chPos (Backend_String b) (totalSlots s), b)"
    by (rule CH_Init_per_backend)
  show "length (keys (CH_Init s bs)) = length bs" by (rule CH_Init_lengths)
  show "sorted (keys (CH_Init s bs))" using CH_Init_inv[of s bs] by (simp add: ch_inv_def)
qed

theorem ring_entries_counterexample:
  "ring (NewConsistentHashStrategy [seed 8081]) = [(chPos ''localhost:8081'' (2 ^ 32), seed 8081)]"
  by (simp add: NewConsistentHashStrategy_def CH_Init_ring entry_def seed_String)

subsection \<open>Lookup on a concrete ring\<close>

lemma sha_8081: "Sum256 ''localhost:8081'' ! 0 = 349088647"
  by code_simp

lemma sha_8082: "Sum256 ''localhost:8082'' ! 0 = 3169355326"
  by code_simp

lemma chPos_slots: "chPos k 4294967296 = Sum256 k ! 0"
  using chPos_full[of k] by simp

lemma ring_two:
  "ring (NewConsistentHashStrategy [seed 8081, seed 8082]) =
     [(349088647, seed 8081), (3169355326, seed 8082)]"
  by (simp add: NewConsistentHashStrategy_def CH_Init_ring entry_def seed_String chPos_slots
      sha_8081 sha_8082)

lemma lookup_own_identity:
  "CH_GetNextBackend (NewConsistentHashStrategy [seed 8081, seed 8082])
     \<lparr>reqId = [], key = ''localhost:8081''\<rparr> = Some (seed 8082)"
proof -
  have t: "totalSlots (NewConsistentHashStrategy [seed 8081, seed 8082]) = 2 ^ 32"
    by (simp add: NewConsistentHashStrategy_def CH_Init_totalSlots)
  have i: "ch_inv (NewConsistentHashStrategy [seed 8081, seed 8082])"
    by (simp add: NewConsistentHashStrategy_def CH_Init_inv)
  show ?thesis
    unfolding CH_lookup_gt[OF i] t ring_two
    by (simp add: chPos_slots sha_8081 clockwise_gt_def)
qed

text \<open>
  Claim C2, as amended. The visualizer's \<^verbatim>\<open>chPickServer\<close> returns the server of the
  first ring pair whose position is greater than or equal to the slot of the key, and
  the server of pair 0 when there is none: a pair exactly at the slot is picked. The
  engine's \<^verbatim>\<open>ConsistentHashStrategy.GetNextBackend\<close> returns the backend of the first
  ring entry whose position is strictly greater than the slot, and the backend of
  entry 0 when there is none: an entry exactly at the slot is passed over.
\<close>

theorem clockwise_lookup:
  "chPickServer servers keyStr = clockwise_ge (ts_ring servers) (hash32 keyStr) \<and>
   CH_GetNextBackend (CH_Init s bs) req =
     clockwise_gt (ring (CH_Init s bs)) (chPos (key req) (totalSlots s))"
  using CH_lookup_gt[OF CH_Init_inv, of s bs req]
  by (simp add: chPickServer_ge CH_Init_totalSlots)

theorem clockwise_lookup_counterexample:
  "ring (NewConsistentHashStrategy [seed 8081, seed 8082]) =
     [(349088647, seed 8081), (3169355326, seed 8082)] \<and>
   chPos ''localhost:8081'' (totalSlots (NewConsistentHashStrategy [seed 8081, seed 8082])) = 349088647 \<and>
   CH_GetNextBackend (NewConsistentHashStrategy [seed 8081, seed 8082])
     \<lparr>reqId = [], key = ''localhost:8081''\<rparr> = Some (seed 8082) \<and>
   clockwise_ge (ring (NewConsistentHashStrategy [seed 8081, seed 8082]))
     (chPos ''localhost:8081'' (totalSlots (NewConsistentHashStrategy [seed 8081, seed 8082])))
     = Some (seed 8081) \<and>
   seed 8081 \<noteq> seed 8082"
proof -
  have t: "totalSlots (NewConsistentHashStrategy [seed 8081, seed 8082]) = 2 ^ 32"
    by (simp add: NewConsistentHashStrategy_def CH_Init_totalSlots)
  have d: "seed 8081 \<noteq> seed 8082" by (simp add: seed_def)
  show ?thesis
    unfolding t ring_two using d
    by (simp add: lookup_own_identity chPos_slots sha_8081 clockwise_ge_def)
qed

subsection \<open>Empty and non-empty topologies\<close>

lemma none_iff_empty:
  "(\<exists>st'. GetNextBackend st req = Inr (None, st')) \<longleftrightarrow> strategy_backends st = []"
proof (cases st)
  case (SimpleHash s)
  then show ?thesis
    by (auto simp: SimpleHash_GetNextBackend_def Let_def split: sum.splits if_splits)
next
  case (RoundRobin s)
  then show ?thesis
    by (auto simp: RR_GetNextBackend_def Let_def split: sum.splits if_splits)
next
  case (Static s)
  then show ?thesis
    by (auto simp: Static_GetNextBackend_def Let_def split: sum.splits if_splits)
next
  case (ConsistentHash s)
  then show ?thesis
    by (auto simp: CH_GetNextBackend_def Let_def)
qed

lemma CH_Init_backends: "mset (backends (CH_Init s bs)) = mset bs"
proof -
  have "backends (CH_Init s bs) = map snd (ring (CH_Init s bs))"
    using CH_Init_lengths[of s bs] by (simp add: ring_def)
  also have "mset \<dots> = mset (map snd (map (entry (totalSlots s)) bs))"
    by (simp only: CH_Init_ring mset_map mset_sort mset_rev)
  also have "\<dots> = mset bs" by (simp add: entry_def comp_def)
  finally show ?thesis .
qed

lemma Init_backends: "mset (strategy_backends (Init st bs)) = mset bs"
  by (cases st)
     (simp_all add: SimpleHash_Init_def RR_Init_def Static_Init_def CH_Init_backends)

lemma CH_member:
  assumes "bs \<noteq> []"
  shows "\<exists>b\<in>set bs. CH_GetNextBackend (CH_Init s bs) req = Some b"
proof -
  let ?c = "CH_Init s bs"
  have ne: "backends ?c \<noteq> []" using assms CH_Init_lengths(2)[of s bs] by auto
  then obtain i where "CH_GetNextBackend ?c req = Some (backends ?c ! (i mod length (backends ?c)))"
    by (simp add: CH_GetNextBackend_def Let_def)
  moreover have "backends ?c ! (i mod length (backends ?c)) \<in> set (backends ?c)"
    using ne by simp
  moreover have "set (backends ?c) = set bs"
    using CH_Init_backends[of s bs] by (rule mset_eq_setD)
  ultimately show ?thesis by auto
qed

lemma SimpleHash_member:
  assumes "sh_Backends s \<noteq> []" "length (sh_Backends s) < 2 ^ 32"
  shows "\<exists>b\<in>set (sh_Backends s). SimpleHash_GetNextBackend s req = Inr (Some b)"
proof -
  define n where "n = length (sh_Backends s)"
  define h where "h = fnv32a (key req)"
  have n0: "0 < n" using assms(1) by (simp add: n_def)
  have nz: "(word_of_nat n :: u32) \<noteq> 0"
    using n0 assms(2) by (intro of_nat_neq_0) (simp_all add: n_def)
  have un: "unat (word_of_nat n :: u32) = n"
    using assms(2) by (simp add: unat_of_nat n_def)
  have "uint (h mod (word_of_nat n :: u32)) = int (unat h mod n)"
    by (simp add: uint_nat unat_mod_distrib un)
  moreover have "unat h mod n < n" using n0 by simp
  ultimately have ix: "index (sh_Backends s) (uint (h mod (word_of_nat n :: u32)))
                        = Inr (sh_Backends s ! (unat h mod n))"
    by (simp add: index_def n_def)
  have "sh_Backends s ! (unat h mod n) \<in> set (sh_Backends s)"
    using n0 by (simp add: n_def)
  moreover have "SimpleHash_GetNextBackend s req = Inr (Some (sh_Backends s ! (unat h mod n)))"
    using n0 nz ix by (simp add: SimpleHash_GetNextBackend_def Let_def n_def[symmetric] h_def[symmetric])
  ultimately show ?thesis by blast
qed

lemma Init_member:
  assumes "bs \<noteq> []" "length bs < 2 ^ 32"
  shows "\<exists>b\<in>set bs. \<exists>st'. GetNextBackend (Init st bs) req = Inr (Some b, st')"
proof (cases st)
  case (SimpleHash s)
  have "\<exists>b\<in>set bs. SimpleHash_GetNextBackend (SimpleHash_Init s bs) req = Inr (Some b)"
    using SimpleHash_member[of "SimpleHash_Init s bs" req] assms
    by (simp add: SimpleHash_Init_def)
  then show ?thesis using SimpleHash by auto
next
  case (RoundRobin s)
  have K: "0 < length bs" using assms(1) by simp
  have "RR_GetNextBackend \<lparr>rr_Index = int 0, rr_Backends = bs\<rparr> req =
           Inr (Some (bs ! (Suc 0 mod length bs)),
                \<lparr>rr_Index = int (Suc 0 mod length bs), rr_Backends = bs\<rparr>)"
    by (rule RR_step[OF K])
  moreover have "Suc 0 mod length bs < length bs" using K by (rule mod_less_divisor)
  then have "bs ! (Suc 0 mod length bs) \<in> set bs" by (rule nth_mem)
  moreover have "RR_Init s bs = \<lparr>rr_Index = int 0, rr_Backends = bs\<rparr>"
    by (simp add: RR_Init_def)
  ultimately show ?thesis using RoundRobin by auto
next
  case (Static s)
  have "Static_GetNextBackend (Static_Init s bs) req = Inr (Some (bs ! 0))"
    using assms(1) by (simp add: Static_GetNextBackend_def Static_Init_def index_def)
  moreover have "bs ! 0 \<in> set bs" using assms(1) by simp
  ultimately show ?thesis using Static by auto
next
  case (ConsistentHash s)
  then show ?thesis using CH_member[OF assms(1), of s req] by auto
qed

text \<open>
  Claim C7. For each of the four strategies, in any state and for any request,
  \<^verbatim>\<open>GetNextBackend\<close> returns nil exactly when the strategy's backend list is empty, and
  after \<^verbatim>\<open>Init\<close> that list holds the backends of the topology. After \<^verbatim>\<open>Init\<close> on a
  non-empty topology (of fewer than \<open>2\<^sup>3\<^sup>2\<close> backends) every strategy returns a backend
  of that topology; the consistent-hash strategy does so for a topology of any size,
  and its state is unchanged.
\<close>

theorem none_only_when_empty:
  "((\<exists>st'. GetNextBackend st req = Inr (None, st')) \<longleftrightarrow> strategy_backends st = []) \<and>
   mset (strategy_backends (Init st bs)) = mset bs \<and>
   ((\<exists>st'. GetNextBackend (Init st bs) req = Inr (None, st')) \<longleftrightarrow> bs = []) \<and>
   (bs \<noteq> [] \<and> length bs < 2 ^ 32 \<longrightarrow>
      (\<exists>b\<in>set bs. \<exists>st'. GetNextBackend (Init st bs) req = Inr (Some b, st'))) \<and>
   (bs \<noteq> [] \<longrightarrow>
      (\<exists>b\<in>set bs. GetNextBackend (Init (ConsistentHash c) bs) req
                      = Inr (Some b, Init (ConsistentHash c) bs)))"
proof (intro conjI impI)
  show "(\<exists>st'. GetNextBackend st req = Inr (None, st')) \<longleftrightarrow> strategy_backends st = []"
    by (rule none_iff_empty)
  show "mset (strategy_backends (Init st bs)) = mset bs" by (rule Init_backends)
  have "strategy_backends (Init st bs) = [] \<longleftrightarrow> bs = []"
    using Init_backends[of st bs] by (metis mset_zero_iff)
  then show "(\<exists>st'. GetNextBackend (Init st bs) req = Inr (None, st')) \<longleftrightarrow> bs = []"
    by (simp only: none_iff_empty)
next
  assume "bs \<noteq> [] \<and> length bs < 2 ^ 32"
  then show "\<exists>b\<in>set bs. \<exists>st'. GetNextBackend (Init st bs) req = Inr (Some b, st')"
    using Init_member[of bs st req] by blast
next
  assume "bs \<noteq> []"
  from CH_member[OF this, of c req]
  show "\<exists>b\<in>set bs. GetNextBackend (Init (ConsistentHash c) bs) req
                      = Inr (Some b, Init (ConsistentHash c) bs)"
    by simp
qed

theorem none_only_when_empty_witness:
  "[seed 8081] \<noteq> [] \<and> length [seed 8081] < (2::nat) ^ 32 \<and>
   GetNextBackend (Init (ConsistentHash \<lparr>keys = [], backends = [], totalSlots = 2 ^ 32\<rparr>) [seed 8081])
       \<lparr>reqId = [], key = ''10.0.0.1''\<rparr>
     = Inr (Some (seed 8081),
            Init (ConsistentHash \<lparr>keys = [], backends = [], totalSlots = 2 ^ 32\<rparr>) [seed 8081])"
proof -
  have h: "[seed 8081] \<noteq> []" by simp
  have l: "length [seed 8081] < (2::nat) ^ 32" by simp
  from none_only_when_empty[of "ConsistentHash \<lparr>keys = [], backends = [], totalSlots = 2 ^ 32\<rparr>"
      "\<lparr>reqId = [], key = ''10.0.0.1''\<rparr>" "[seed 8081]"
      "\<lparr>keys = [], backends = [], totalSlots = 2 ^ 32\<rparr>"]
  have "\<exists>b\<in>set [seed 8081].
          GetNextBackend (Init (ConsistentHash \<lparr>keys = [], backends = [], totalSlots = 2 ^ 32\<rparr>) [seed 8081])
            \<lparr>reqId = [], key = ''10.0.0.1''\<rparr>
          = Inr (Some b, Init (ConsistentHash \<lparr>keys = [], backends = [], totalSlots = 2 ^ 32\<rparr>) [seed 8081])"
    using h by blast
  then show ?thesis using h l by simp
qed

subsection \<open>Removing one backend\<close>

lemma find_app:
  "find P (xs @ ys) = (case find P xs of None \<Rightarrow> find P ys | Some x \<Rightarrow> Some x)"
  by (induction xs) auto

lemma insort_one_more:
  assumes "sorted (map f (u @ e # v))"
  shows "\<exists>u' v'. insort_key f a (u @ e # v) = u' @ e # v' \<and> insort_key f a (u @ v) = u' @ v'"
  using assms
proof (induction u)
  case Nil
  show ?case
  proof (cases "f a \<le> f e")
    case True
    have "\<forall>x\<in>set v. f a \<le> f x"
      using Nil True by (auto intro: order_trans)
    then have "insort_key f a v = a # v" by (rule insort_is_Cons)
    then have "insort_key f a ([] @ e # v) = [a] @ e # v \<and> insort_key f a ([] @ v) = [a] @ v"
      using True by simp
    then show ?thesis by blast
  next
    case False
    then have "insort_key f a ([] @ e # v) = [] @ e # insort_key f a v \<and>
               insort_key f a ([] @ v) = [] @ insort_key f a v"
      by simp
    then show ?thesis by blast
  qed
next
  case (Cons y u)
  show ?case
  proof (cases "f a \<le> f y")
    case True
    then have "insort_key f a ((y # u) @ e # v) = (a # y # u) @ e # v \<and>
               insort_key f a ((y # u) @ v) = (a # y # u) @ v"
      by simp
    then show ?thesis by blast
  next
    case False
    from Cons.prems have "sorted (map f (u @ e # v))" by simp
    from Cons.IH[OF this] obtain u' v' where
      "insort_key f a (u @ e # v) = u' @ e # v'" "insort_key f a (u @ v) = u' @ v'" by blast
    then have "insort_key f a ((y # u) @ e # v) = (y # u') @ e # v' \<and>
               insort_key f a ((y # u) @ v) = (y # u') @ v'"
      using False by simp
    then show ?thesis by blast
  qed
qed

lemma sort_key_one_more:
  "\<exists>u v. sort_key f (A @ e # B) = u @ e # v \<and> sort_key f (A @ B) = u @ v"
proof (induction A)
  case Nil
  have "sort_key f ([] @ e # B) =
          takeWhile (\<lambda>y. f y < f e) (sort_key f B) @ e # dropWhile (\<lambda>y. f y < f e) (sort_key f B)"
    by (simp add: insort_key_takeWhile)
  moreover have "sort_key f ([] @ B) =
          takeWhile (\<lambda>y. f y < f e) (sort_key f B) @ dropWhile (\<lambda>y. f y < f e) (sort_key f B)"
    by simp
  ultimately show ?case by blast
next
  case (Cons a A)
  then obtain u v where uv: "sort_key f (A @ e # B) = u @ e # v" "sort_key f (A @ B) = u @ v"
    by blast
  have "sorted (map f (sort_key f (A @ e # B)))" by (rule sorted_sort_key)
  then have "sorted (map f (u @ e # v))" by (simp only: uv)
  from insort_one_more[OF this, of a] obtain u' v' where
    "insort_key f a (u @ e # v) = u' @ e # v'" "insort_key f a (u @ v) = u' @ v'" by blast
  then have "sort_key f ((a # A) @ e # B) = u' @ e # v' \<and> sort_key f ((a # A) @ B) = u' @ v'"
    using uv by simp
  then show ?case by blast
qed

lemma clockwise_gt_one_less:
  fixes u v :: "('p::linorder \<times> 'b) list"
  assumes "clockwise_gt (u @ e # v) slot = Some c" and "c \<noteq> snd e"
  shows "clockwise_gt (u @ v) slot = Some c"
proof -
  define P where "P = (\<lambda>x::'p \<times> 'b. slot < fst x)"
  have sel: "(case find P (u @ e # v) of Some x \<Rightarrow> Some (snd x)
              | None \<Rightarrow> Some (snd ((u @ e # v) ! 0))) = Some c"
    using assms(1) by (simp add: clockwise_gt_def P_def)
  have goal: "clockwise_gt (u @ v) slot = Some c"
    if "u @ v \<noteq> []" and "(case find P (u @ v) of Some x \<Rightarrow> Some (snd x)
              | None \<Rightarrow> Some (snd ((u @ v) ! 0))) = Some c"
    using that by (simp add: clockwise_gt_def P_def)
  show ?thesis
  proof (cases "find P u")
    case (Some x)
    then have "u \<noteq> []" by auto
    moreover have "find P (u @ e # v) = Some x" "find P (u @ v) = Some x"
      using Some by (simp_all add: find_app)
    ultimately show ?thesis using sel by (intro goal) simp_all
  next
    case None
    show ?thesis
    proof (cases "P e")
      case True
      then have "find P (u @ e # v) = Some e" using None by (simp add: find_app)
      then show ?thesis using sel assms(2) by simp
    next
      case False
      show ?thesis
      proof (cases "find P v")
        case (Some x)
        then have "v \<noteq> []" by auto
        moreover have "find P (u @ e # v) = Some x" "find P (u @ v) = Some x"
          using None False Some by (simp_all add: find_app)
        ultimately show ?thesis using sel by (intro goal) simp_all
      next
        case nv: None
        have n1: "find P (u @ e # v) = None" and n2: "find P (u @ v) = None"
          using None False nv by (simp_all add: find_app)
        show ?thesis
        proof (cases u)
          case Nil
          then show ?thesis using sel n1 assms(2) by simp
        next
          case (Cons y u')
          then have "(u @ e # v) ! 0 = y" "(u @ v) ! 0 = y" "u @ v \<noteq> []" by simp_all
          then show ?thesis using sel n1 n2 by (intro goal) simp_all
        qed
      qed
    qed
  qed
qed

lemma find_idx_result:
  "find_idx bs i host port = - 1 \<or>
   (\<exists>j<length bs. find_idx bs i host port = int (i + j) \<and> Host (bs ! j) = host \<and> Port (bs ! j) = port)"
proof (induction bs arbitrary: i)
  case Nil
  then show ?case by simp
next
  case (Cons b bs)
  show ?case
  proof (cases "Host b = host \<and> Port b = port")
    case True
    then have "find_idx (b # bs) i host port = int (i + 0) \<and> Host ((b # bs) ! 0) = host \<and>
               Port ((b # bs) ! 0) = port" by simp
    then show ?thesis by blast
  next
    case False
    from Cons.IH[of "i + 1"] show ?thesis
    proof
      assume "find_idx bs (i + 1) host port = - 1"
      then show ?thesis using False by simp
    next
      assume "\<exists>j<length bs. find_idx bs (i + 1) host port = int (i + 1 + j) \<and>
                Host (bs ! j) = host \<and> Port (bs ! j) = port"
      then obtain j where j: "j < length bs" "find_idx bs (i + 1) host port = int (i + 1 + j)"
        "Host (bs ! j) = host" "Port (bs ! j) = port" by blast
      then have "Suc j < length (b # bs) \<and> find_idx (b # bs) i host port = int (i + Suc j) \<and>
                 Host ((b # bs) ! Suc j) = host \<and> Port ((b # bs) ! Suc j) = port"
        using False by simp
      then show ?thesis by blast
    qed
  qed
qed

lemma removeBackend_True:
  assumes "removeBackend lb host port = (True, lb')"
  shows "\<exists>j<length (lb_backends lb).
           Host (lb_backends lb ! j) = host \<and> Port (lb_backends lb ! j) = port \<and>
           lb_backends lb' = take j (lb_backends lb) @ drop (Suc j) (lb_backends lb) \<and>
           strategy lb' = strategy lb \<and> demoKeys lb' = demoKeys lb"
proof -
  from find_idx_result[of "lb_backends lb" 0 host port] show ?thesis
  proof
    assume "find_idx (lb_backends lb) 0 host port = - 1"
    then show ?thesis using assms by (simp add: removeBackend_def)
  next
    assume "\<exists>j<length (lb_backends lb). find_idx (lb_backends lb) 0 host port = int (0 + j) \<and>
              Host (lb_backends lb ! j) = host \<and> Port (lb_backends lb ! j) = port"
    then obtain j where j: "j < length (lb_backends lb)"
      "find_idx (lb_backends lb) 0 host port = int j"
      "Host (lb_backends lb ! j) = host" "Port (lb_backends lb ! j) = port" by auto
    then have "lb' = lb\<lparr>lb_backends := take j (lb_backends lb) @ drop (Suc j) (lb_backends lb)\<rparr>"
      using assms by (simp add: removeBackend_def Let_def)
    then show ?thesis using j by auto
  qed
qed

lemma CH_remove_one:
  assumes ts: "totalSlots s' = totalSlots s"
    and j: "j < length bs"
    and sel: "CH_GetNextBackend (CH_Init s bs) req = Some c"
    and ne: "c \<noteq> bs ! j"
  shows "CH_GetNextBackend (CH_Init s' (take j bs @ drop (Suc j) bs)) req = Some c"
proof -
  define en where "en = entry (totalSlots s)"
  define A where "A = rev (map en (drop (Suc j) bs))"
  define B where "B = rev (map en (take j bs))"
  have bs: "bs = take j bs @ bs ! j # drop (Suc j) bs"
    using j by (rule id_take_nth_drop)
  have "rev (map en bs) = rev (map en (take j bs @ bs ! j # drop (Suc j) bs))"
    using bs by simp
  then have r1: "rev (map en bs) = A @ en (bs ! j) # B"
    by (simp add: A_def B_def)
  have r2: "rev (map en (take j bs @ drop (Suc j) bs)) = A @ B"
    by (simp add: A_def B_def)
  obtain u v where uv: "sort_key fst (A @ en (bs ! j) # B) = u @ en (bs ! j) # v"
    "sort_key fst (A @ B) = u @ v"
    using sort_key_one_more[of fst A "en (bs ! j)" B] by blast
  have g1: "ring (CH_Init s bs) = u @ en (bs ! j) # v"
    by (simp only: CH_Init_ring en_def[symmetric] r1 uv)
  have g2: "ring (CH_Init s' (take j bs @ drop (Suc j) bs)) = u @ v"
    by (simp only: CH_Init_ring ts en_def[symmetric] r2 uv)
  have "clockwise_gt (u @ en (bs ! j) # v) (chPos (key req) (totalSlots s)) = Some c"
    using sel CH_lookup_gt[OF CH_Init_inv, of s bs req]
    by (simp only: g1 CH_Init_totalSlots)
  moreover have "c \<noteq> snd (en (bs ! j))" using ne by (simp add: en_def entry_def)
  ultimately have "clockwise_gt (u @ v) (chPos (key req) (totalSlots s)) = Some c"
    by (rule clockwise_gt_one_less)
  then show ?thesis
    using CH_lookup_gt[OF CH_Init_inv, of s' "take j bs @ drop (Suc j) bs" req]
    by (simp only: g2 CH_Init_totalSlots ts)
qed

lemma CH_remove_backend:
  assumes "removeBackend lb host port = (True, lb')"
    and "CH_GetNextBackend (CH_Init s (lb_backends lb)) req = Some c"
    and "\<not> (Host c = host \<and> Port c = port)"
  shows "CH_GetNextBackend (CH_Init (CH_Init s (lb_backends lb)) (lb_backends lb')) req = Some c"
proof -
  from removeBackend_True[OF assms(1)] obtain j where j: "j < length (lb_backends lb)"
    "Host (lb_backends lb ! j) = host" "Port (lb_backends lb ! j) = port"
    "lb_backends lb' = take j (lb_backends lb) @ drop (Suc j) (lb_backends lb)" by blast
  have ne: "c \<noteq> lb_backends lb ! j" using assms(3) j(2,3) by auto
  have ts: "totalSlots (CH_Init s (lb_backends lb)) = totalSlots s" by (rule CH_Init_totalSlots)
  show ?thesis
    unfolding j(4) by (rule CH_remove_one[OF ts j(1) assms(2) ne])
qed

lemma clockwise_ge_one_less:
  fixes u v :: "('p::linorder \<times> 'b) list"
  assumes "clockwise_ge (u @ e # v) slot = Some c" and "c \<noteq> snd e"
  shows "clockwise_ge (u @ v) slot = Some c"
proof -
  define P where "P = (\<lambda>x::'p \<times> 'b. slot \<le> fst x)"
  have sel: "(case find P (u @ e # v) of Some x \<Rightarrow> Some (snd x)
              | None \<Rightarrow> Some (snd ((u @ e # v) ! 0))) = Some c"
    using assms(1) by (simp add: clockwise_ge_def P_def)
  have goal: "clockwise_ge (u @ v) slot = Some c"
    if "u @ v \<noteq> []" and "(case find P (u @ v) of Some x \<Rightarrow> Some (snd x)
              | None \<Rightarrow> Some (snd ((u @ v) ! 0))) = Some c"
    using that by (simp add: clockwise_ge_def P_def)
  show ?thesis
  proof (cases "find P u")
    case (Some x)
    then have "u \<noteq> []" by auto
    moreover have "find P (u @ e # v) = Some x" "find P (u @ v) = Some x"
      using Some by (simp_all add: find_app)
    ultimately show ?thesis using sel by (intro goal) simp_all
  next
    case None
    show ?thesis
    proof (cases "P e")
      case True
      then have "find P (u @ e # v) = Some e" using None by (simp add: find_app)
      then show ?thesis using sel assms(2) by simp
    next
      case False
      show ?thesis
      proof (cases "find P v")
        case (Some x)
        then have "v \<noteq> []" by auto
        moreover have "find P (u @ e # v) = Some x" "find P (u @ v) = Some x"
          using None False Some by (simp_all add: find_app)
        ultimately show ?thesis using sel by (intro goal) simp_all
      next
        case nv: None
        have n1: "find P (u @ e # v) = None" and n2: "find P (u @ v) = None"
          using None False nv by (simp_all add: find_app)
        show ?thesis
        proof (cases u)
          case Nil
          then show ?thesis using sel n1 assms(2) by simp
        next
          case (Cons y u')
          then have "(u @ e # v) ! 0 = y" "(u @ v) ! 0 = y" "u @ v \<noteq> []" by simp_all
          then show ?thesis using sel n1 n2 by (intro goal) simp_all
        qed
      qed
    qed
  qed
qed

lemma clockwise_ge_block_less:
  fixes f :: "'e \<Rightarrow> 'p::linorder" and g :: "'e \<Rightarrow> 'b"
  assumes "clockwise_ge (map (\<lambda>p. (f p, g p)) (sort_key f (A @ E @ C))) slot = Some c"
    and "\<forall>e\<in>set E. g e \<noteq> c"
  shows "clockwise_ge (map (\<lambda>p. (f p, g p)) (sort_key f (A @ C))) slot = Some c"
  using assms
proof (induction E)
  case Nil
  then show ?case by simp
next
  case (Cons e E)
  obtain u v where uv: "sort_key f (A @ e # (E @ C)) = u @ e # v" "sort_key f (A @ (E @ C)) = u @ v"
    using sort_key_one_more[of f A e "E @ C"] by blast
  have "clockwise_ge (map (\<lambda>p. (f p, g p)) u @ (f e, g e) # map (\<lambda>p. (f p, g p)) v) slot = Some c"
    using Cons.prems(1) uv(1) by simp
  moreover have "c \<noteq> snd (f e, g e)" using Cons.prems(2) by auto
  ultimately have "clockwise_ge (map (\<lambda>p. (f p, g p)) u @ map (\<lambda>p. (f p, g p)) v) slot = Some c"
    by (rule clockwise_ge_one_less)
  then have "clockwise_ge (map (\<lambda>p. (f p, g p)) (sort_key f (A @ E @ C))) slot = Some c"
    using uv(2) by simp
  then show ?case using Cons.IH Cons.prems(2) by simp
qed

lemma chPickServer_remove_one:
  assumes j: "j < length servers"
    and sel: "chPickServer servers keyStr = Some c"
    and ne: "c \<noteq> servers ! j"
  shows "chPickServer (take j servers @ drop (Suc j) servers) keyStr = Some c"
proof -
  define A where "A = concat (map replicas_of (take j servers))"
  define C where "C = concat (map replicas_of (drop (Suc j) servers))"
  have sv: "servers = take j servers @ servers ! j # drop (Suc j) servers"
    using j by (rule id_take_nth_drop)
  have "concat (map replicas_of servers) =
        concat (map replicas_of (take j servers @ servers ! j # drop (Suc j) servers))"
    using sv by simp
  then have c1: "concat (map replicas_of servers) = A @ replicas_of (servers ! j) @ C"
    by (simp add: A_def C_def)
  have c2: "concat (map replicas_of (take j servers @ drop (Suc j) servers)) = A @ C"
    by (simp add: A_def C_def)
  have "clockwise_ge (map (\<lambda>p. (pkey p, server p))
          (sort_key pkey (A @ replicas_of (servers ! j) @ C))) (hash32 keyStr) = Some c"
    using sel by (simp add: chPickServer_ge ts_ring_def ringPositions_concat c1)
  moreover have "\<forall>e\<in>set (replicas_of (servers ! j)). server e \<noteq> c"
    using ne by (auto simp: replicas_of_def)
  ultimately have "clockwise_ge (map (\<lambda>p. (pkey p, server p)) (sort_key pkey (A @ C)))
      (hash32 keyStr) = Some c"
    by (rule clockwise_ge_block_less)
  then show ?thesis
    by (simp only: chPickServer_ge ts_ring_def ringPositions_concat c2)
qed

lemma find_mapped:
  "find P (map h xs) = map_option h (find (\<lambda>x. P (h x)) xs)"
  by (induction xs) auto

lemma find_own_position:
  "find (\<lambda>p. f x \<le> f p) (sort_key f (x # xs)) = Some x"
proof -
  define S where "S = sort_key f xs"
  have "sort_key f (x # xs) = takeWhile (\<lambda>y. f y < f x) S @ x # dropWhile (\<lambda>y. f y < f x) S"
    by (simp add: S_def insort_key_takeWhile)
  moreover have "find (\<lambda>p. f x \<le> f p) (takeWhile (\<lambda>y. f y < f x) S) = None"
    by (auto simp: find_None_iff dest: set_takeWhileD)
  ultimately show ?thesis by (simp add: find_app)
qed

lemma chPickServer_own_label:
  "chPickServer (a # rest) (replica_label a 0) = Some a"
proof -
  define x where "x = \<lparr>pkey = hash32 (replica_label a 0), server = a\<rparr>"
  have "[0..<64] = 0 # [1..<64]" by (simp add: upt_rec)
  then have "replicas_of a = x # map (\<lambda>r. \<lparr>pkey = hash32 (srv_id a @ js ''#'' @ js (digits r)), server = a\<rparr>) [1..<64]"
    by (simp add: replicas_of_def x_def replica_label_def)
  then obtain xs where rp: "ringPositions (a # rest) = sort_key pkey (x # xs)"
    by (simp add: ringPositions_concat)
  have f: "find (\<lambda>p. pkey x \<le> pkey p) (sort_key pkey (x # xs)) = Some x"
    by (rule find_own_position)
  have "find (\<lambda>e. hash32 (replica_label a 0) \<le> fst e)
          (map (\<lambda>p. (pkey p, server p)) (sort_key pkey (x # xs))) = Some (pkey x, server x)"
    using f by (simp add: find_mapped x_def)
  moreover have "sort_key pkey (x # xs) \<noteq> []" by simp
  ultimately show ?thesis
    unfolding chPickServer_ge ts_ring_def rp clockwise_ge_def by (simp add: x_def)
qed

text \<open>
  Claim C3. When \<^verbatim>\<open>removeBackend\<close> takes one backend out of the topology and the
  engine's consistent-hash strategy is initialised again on what is left, every key that
  was routed to a backend other than the removed host and port is routed to the same
  backend as before. The same holds for the visualizer's \<^verbatim>\<open>chPickServer\<close> when one
  server is taken out of the list.
\<close>

theorem bounded_movement_on_removal:
  "(removeBackend lb host port = (True, lb') \<and>
    CH_GetNextBackend (CH_Init s (lb_backends lb)) req = Some c \<and>
    \<not> (Host c = host \<and> Port c = port) \<longrightarrow>
      CH_GetNextBackend (CH_Init (CH_Init s (lb_backends lb)) (lb_backends lb')) req = Some c) \<and>
   (j < length servers \<and> chPickServer servers keyStr = Some sv \<and> sv \<noteq> servers ! j \<longrightarrow>
      chPickServer (take j servers @ drop (Suc j) servers) keyStr = Some sv)"
  using CH_remove_backend[of lb host port lb' s req c]
    chPickServer_remove_one[of j servers keyStr sv]
  by blast

theorem bounded_movement_on_removal_witness:
  "removeBackend lb2 ''localhost'' 8081 = (True, lb2\<lparr>lb_backends := [seed 8082]\<rparr>) \<and>
   CH_GetNextBackend (CH_Init \<lparr>keys = [], backends = [], totalSlots = 2 ^ 32\<rparr> (lb_backends lb2))
     \<lparr>reqId = [], key = ''localhost:8081''\<rparr> = Some (seed 8082) \<and>
   \<not> (Host (seed 8082) = ''localhost'' \<and> Port (seed 8082) = 8081) \<and>
   CH_GetNextBackend
     (CH_Init (CH_Init \<lparr>keys = [], backends = [], totalSlots = 2 ^ 32\<rparr> (lb_backends lb2))
        (lb_backends (lb2\<lparr>lb_backends := [seed 8082]\<rparr>)))
     \<lparr>reqId = [], key = ''localhost:8081''\<rparr> = Some (seed 8082) \<and>
   Suc 0 < length [srv 8081, srv 8082] \<and>
   chPickServer [srv 8081, srv 8082] (replica_label (srv 8081) 0) = Some (srv 8081) \<and>
   srv 8081 \<noteq> [srv 8081, srv 8082] ! Suc 0 \<and>
   chPickServer (take (Suc 0) [srv 8081, srv 8082] @ drop (Suc (Suc 0)) [srv 8081, srv 8082])
     (replica_label (srv 8081) 0) = Some (srv 8081)"
proof -
  have r: "removeBackend lb2 ''localhost'' 8081 = (True, lb2\<lparr>lb_backends := [seed 8082]\<rparr>)"
    by (simp add: removeBackend_def lb2_def seed_def)
  have s: "CH_GetNextBackend (CH_Init \<lparr>keys = [], backends = [], totalSlots = 2 ^ 32\<rparr> (lb_backends lb2))
     \<lparr>reqId = [], key = ''localhost:8081''\<rparr> = Some (seed 8082)"
    using lookup_own_identity by (simp add: NewConsistentHashStrategy_def lb2_def)
  have n: "\<not> (Host (seed 8082) = ''localhost'' \<and> Port (seed 8082) = 8081)"
    by (simp add: seed_def)
  have l: "Suc 0 < length [srv 8081, srv 8082]" by simp
  have t: "chPickServer [srv 8081, srv 8082] (replica_label (srv 8081) 0) = Some (srv 8081)"
    by (rule chPickServer_own_label)
  have d: "srv 8081 \<noteq> [srv 8081, srv 8082] ! Suc 0" by (simp add: srv_def)
  from bounded_movement_on_removal[of lb2 "''localhost''" 8081 "lb2\<lparr>lb_backends := [seed 8082]\<rparr>"
      "\<lparr>keys = [], backends = [], totalSlots = 2 ^ 32\<rparr>" "\<lparr>reqId = [], key = ''localhost:8081''\<rparr>"
      "seed 8082" "Suc 0" "[srv 8081, srv 8082]" "replica_label (srv 8081) 0" "srv 8081"]
    r s n l t d
  show ?thesis by blast
qed

subsection \<open>Snapshots and the round-robin cursor\<close>

lemma snapshot_loop_RR:
  assumes "c < length bs"
  shows "\<exists>m'. snapshot_loop (RoundRobin \<lparr>rr_Index = int c, rr_Backends = bs\<rparr>) ks m =
           Inr (m', RoundRobin \<lparr>rr_Index = int ((c + length ks) mod length bs), rr_Backends = bs\<rparr>)"
  using assms
proof (induction ks arbitrary: c m)
  case Nil
  then show ?case by simp
next
  case (Cons k ks)
  define c' where "c' = Suc c mod length bs"
  have "0 < length bs" using Cons.prems by (cases bs) simp_all
  then have c': "c' < length bs" by (simp add: c'_def)
  have st: "RR_GetNextBackend \<lparr>rr_Index = int c, rr_Backends = bs\<rparr> \<lparr>reqId = [], key = k\<rparr> =
      Inr (Some (bs ! c'), \<lparr>rr_Index = int c', rr_Backends = bs\<rparr>)"
    unfolding c'_def by (rule RR_step[OF Cons.prems])
  have b: "(c' + length ks) mod length bs = (c + length (k # ks)) mod length bs"
  proof -
    have "(c' + length ks) mod length bs = (Suc c + length ks) mod length bs"
      unfolding c'_def by (rule mod_add_left_eq)
    then show ?thesis by simp
  qed
  from Cons.IH[OF c', of "m(k \<mapsto> Backend_String (bs ! c'))"]
  obtain m' where "snapshot_loop (RoundRobin \<lparr>rr_Index = int c', rr_Backends = bs\<rparr>) ks
      (m(k \<mapsto> Backend_String (bs ! c'))) =
      Inr (m', RoundRobin \<lparr>rr_Index = int ((c' + length ks) mod length bs), rr_Backends = bs\<rparr>)"
    by blast
  then have "snapshot_loop (RoundRobin \<lparr>rr_Index = int c, rr_Backends = bs\<rparr>) (k # ks) m =
      Inr (m', RoundRobin \<lparr>rr_Index = int ((c + length (k # ks)) mod length bs), rr_Backends = bs\<rparr>)"
    unfolding b[symmetric] using st by (simp del: fun_upd_apply)
  then show ?case by blast
qed

lemma snapshot_loop_CH:
  "\<exists>m'. snapshot_loop (ConsistentHash c) ks m = Inr (m', ConsistentHash c)"
  by (induction ks arbitrary: m) simp_all

lemma snapshot_CH:
  assumes "strategy lb = ConsistentHash c"
  shows "\<exists>m. snapshot lb = Inr (m, lb)"
proof -
  obtain m where "snapshot_loop (ConsistentHash c) (demoKeys lb) Map.empty = Inr (m, ConsistentHash c)"
    using snapshot_loop_CH by blast
  then have "snapshot lb = Inr (m, lb\<lparr>strategy := ConsistentHash c\<rparr>)"
    using assms by (simp add: snapshot_def)
  moreover have "lb\<lparr>strategy := ConsistentHash c\<rparr> = lb" using assms by simp
  ultimately show ?thesis by simp
qed

lemma snapshot_lb5:
  "\<exists>m. snapshot lb5 = Inr (m, lb5\<lparr>strategy := RoundRobin \<lparr>rr_Index = 2, rr_Backends = five\<rparr>\<rparr>)"
proof -
  have l: "0 < length five" by (simp add: five_def)
  have d: "length (demoKeys lb5) = 12" by (simp add: lb5_def InitLB_def Let_def)
  have s: "strategy lb5 = RoundRobin \<lparr>rr_Index = int 0, rr_Backends = five\<rparr>"
    by (simp add: lb5_def NewRRBalancingStrategy_def RR_Init_def)
  have "(0 + length (demoKeys lb5)) mod length five = 2" by (simp add: d five_def)
  with snapshot_loop_RR[OF l, of "demoKeys lb5" Map.empty]
  obtain m where "snapshot_loop (strategy lb5) (demoKeys lb5) Map.empty =
      Inr (m, RoundRobin \<lparr>rr_Index = 2, rr_Backends = five\<rparr>)"
    unfolding s by auto
  then show ?thesis by (simp add: snapshot_def)
qed

lemma find_idx_absent:
  "\<forall>b\<in>set bs. \<not> (Host b = host \<and> Port b = port) \<Longrightarrow> find_idx bs i host port = - 1"
  by (induction bs arbitrary: i) auto

subsection \<open>Adding a backend\<close>

lemma snapshot_frame:
  assumes "snapshot lb = Inr (m, lb1)"
  shows "lb_backends lb1 = lb_backends lb" "demoKeys lb1 = demoKeys lb"
  using assms by (auto simp: snapshot_def split: sum.splits prod.splits)

lemma snapshot_CH_map:
  assumes "strategy lb = ConsistentHash c"
  shows "snapshot lb = Inr (snapshot_map lb, lb)"
  using snapshot_CH[OF assms] by (auto simp: snapshot_map_def)

lemma add_event_any:
  "outcome_backends (handle_event lb (add_event b)) = None \<or>
   outcome_backends (handle_event lb (add_event b)) = Some (lb_backends lb @ [b])"
proof (cases "snapshot lb")
  case (Inl p)
  then show ?thesis
    by (simp add: handle_event_def add_event_def outcome_backends_def
        CMD_BackendAdd_def CMD_Exit_def)
next
  case (Inr r)
  then obtain m lb1 where s1: "snapshot lb = Inr (m, lb1)" by (cases r) auto
  have f: "lb_backends lb1 = lb_backends lb" using snapshot_frame(1)[OF s1] .
  define lb3 where "lb3 = lb1\<lparr>lb_backends := lb_backends lb1 @ [b],
      strategy := Init (strategy lb1) (lb_backends lb1 @ [b])\<rparr>"
  show ?thesis
  proof (cases "snapshot lb3")
    case (Inl p)
    then show ?thesis
      using s1 by (simp add: handle_event_def add_event_def outcome_backends_def
          CMD_BackendAdd_def CMD_Exit_def Let_def lb3_def)
  next
    case (Inr r2)
    then obtain m2 lb4 where s2: "snapshot lb3 = Inr (m2, lb4)" by (cases r2) auto
    have "lb_backends lb4 = lb_backends lb @ [b]"
      using snapshot_frame(1)[OF s2] f by (simp add: lb3_def)
    then show ?thesis
      using s1 s2 by (simp add: handle_event_def add_event_def outcome_backends_def
          CMD_BackendAdd_def CMD_Exit_def Let_def lb3_def)
  qed
qed

lemma add_event_CH:
  fixes b :: Backend
  assumes "strategy lb = ConsistentHash c"
  defines "lb' \<equiv> lb\<lparr>lb_backends := lb_backends lb @ [b],
                     strategy := ConsistentHash (CH_Init c (lb_backends lb @ [b]))\<rparr>"
  shows "handle_event lb (add_event b) =
           Inr (True, lb', printRemap lb' ''ADD'' (Some (snapshot_map lb)) (snapshot_map lb'))"
proof -
  have s1: "snapshot lb = Inr (snapshot_map lb, lb)" by (rule snapshot_CH_map[OF assms(1)])
  have "strategy lb' = ConsistentHash (CH_Init c (lb_backends lb @ [b]))" by (simp add: lb'_def)
  then have s2: "snapshot lb' = Inr (snapshot_map lb', lb')" by (rule snapshot_CH_map)
  have e: "lb\<lparr>lb_backends := lb_backends lb @ [b],
             strategy := Init (strategy lb) (lb_backends lb @ [b])\<rparr> = lb'"
    using assms(1) by (simp add: lb'_def)
  show ?thesis
    by (simp add: handle_event_def add_event_def CMD_BackendAdd_def CMD_Exit_def Let_def s1 e s2)
qed

lemma step_ok_refl: "strategy_wf st \<Longrightarrow> step_ok st st"
  by (simp add: step_ok_def)

lemma step_ok_trans: "step_ok a b \<Longrightarrow> step_ok b c \<Longrightarrow> step_ok a c"
  by (auto simp: step_ok_def)

lemma GetNextBackend_wf:
  assumes "strategy_wf st"
  shows "\<exists>r st'. GetNextBackend st req = Inr (r, st') \<and> step_ok st st'"
proof (cases st)
  case (SimpleHash s)
  show ?thesis
  proof (cases "sh_Backends s = []")
    case True
    then have "GetNextBackend st req = Inr (None, st)"
      using SimpleHash by (simp add: SimpleHash_GetNextBackend_def)
    then show ?thesis using step_ok_refl[OF assms] by blast
  next
    case False
    have "length (sh_Backends s) < 2 ^ 32" using assms SimpleHash by simp
    from SimpleHash_member[OF False this, of req] obtain b where
      "SimpleHash_GetNextBackend s req = Inr (Some b)" by blast
    then have "GetNextBackend st req = Inr (Some b, st)" using SimpleHash by simp
    then show ?thesis using step_ok_refl[OF assms] by blast
  qed
next
  case (RoundRobin s)
  show ?thesis
  proof (cases "rr_Backends s = []")
    case True
    then have "GetNextBackend st req = Inr (None, st)"
      using RoundRobin by (simp add: RR_GetNextBackend_def)
    then show ?thesis using step_ok_refl[OF assms] by blast
  next
    case False
    define c where "c = nat (rr_Index s)"
    define bs where "bs = rr_Backends s"
    have ix: "0 \<le> rr_Index s" "rr_Index s < int (length (rr_Backends s))"
      using assms RoundRobin False by auto
    have s: "s = \<lparr>rr_Index = int c, rr_Backends = bs\<rparr>" using ix by (simp add: c_def bs_def)
    have c: "c < length bs" using ix by (simp add: c_def bs_def)
    define s' where "s' = \<lparr>rr_Index = int (Suc c mod length bs), rr_Backends = bs\<rparr>"
    have g: "RR_GetNextBackend s req = Inr (Some (bs ! (Suc c mod length bs)), s')"
      unfolding s s'_def by (rule RR_step[OF c])
    have "0 < length bs" using c by (cases bs) simp_all
    then have "Suc c mod length bs < length bs" by (rule mod_less_divisor)
    then have "step_ok st (RoundRobin s')"
      using RoundRobin by (simp add: step_ok_def s'_def s RR_Init_def)
    moreover have "GetNextBackend st req = Inr (Some (bs ! (Suc c mod length bs)), RoundRobin s')"
      using RoundRobin g by simp
    ultimately show ?thesis by blast
  qed
next
  case (Static s)
  show ?thesis
  proof (cases "st_Backends s = []")
    case True
    then have "GetNextBackend st req = Inr (None, st)"
      using Static by (simp add: Static_GetNextBackend_def)
    then show ?thesis using step_ok_refl[OF assms] by blast
  next
    case False
    have "0 \<le> st_Index s" "st_Index s < int (length (st_Backends s))"
      using assms Static False by auto
    then have "GetNextBackend st req = Inr (Some (st_Backends s ! nat (st_Index s)), st)"
      using Static False by (simp add: Static_GetNextBackend_def index_def)
    then show ?thesis using step_ok_refl[OF assms] by blast
  qed
next
  case (ConsistentHash s)
  then have "GetNextBackend st req = Inr (CH_GetNextBackend s req, st)" by simp
  then show ?thesis using step_ok_refl[OF assms] by blast
qed

lemma snapshot_loop_wf:
  assumes "strategy_wf st"
  shows "\<exists>m' st'. snapshot_loop st ks m = Inr (m', st') \<and> step_ok st st'"
  using assms
proof (induction ks arbitrary: st m)
  case Nil
  then show ?case using step_ok_refl by simp
next
  case (Cons k ks)
  from GetNextBackend_wf[OF Cons.prems, of "\<lparr>reqId = [], key = k\<rparr>"] obtain r st1 where
    g: "GetNextBackend st \<lparr>reqId = [], key = k\<rparr> = Inr (r, st1)" and o: "step_ok st st1" by blast
  have w: "strategy_wf st1" using o by (simp add: step_ok_def)
  from Cons.IH[OF w, of "m(k \<mapsto> (case r of Some b' \<Rightarrow> Backend_String b' | None \<Rightarrow> ''<nil>''))"]
  obtain m' st' where
    l: "snapshot_loop st1 ks (m(k \<mapsto> (case r of Some b' \<Rightarrow> Backend_String b' | None \<Rightarrow> ''<nil>''))) = Inr (m', st')"
    and o2: "step_ok st1 st'" by blast
  have "snapshot_loop st (k # ks) m = Inr (m', st')"
    using g l by (simp del: fun_upd_apply)
  then show ?case using step_ok_trans[OF o o2] by blast
qed

lemma snapshot_wf:
  assumes "strategy_wf (strategy lb)"
  shows "\<exists>st'. snapshot lb = Inr (snapshot_map lb, lb\<lparr>strategy := st'\<rparr>) \<and>
               snapshot_strategy lb = Some st' \<and> step_ok (strategy lb) st'"
proof -
  from snapshot_loop_wf[OF assms, of "demoKeys lb" Map.empty] obtain m' st' where
    "snapshot_loop (strategy lb) (demoKeys lb) Map.empty = Inr (m', st')" "step_ok (strategy lb) st'"
    by blast
  then show ?thesis by (auto simp: snapshot_def snapshot_map_def snapshot_strategy_def)
qed

lemma Init_wf: "length bs < 2 ^ 32 \<Longrightarrow> strategy_wf (Init st bs)"
  by (cases st) (auto simp: SimpleHash_Init_def RR_Init_def Static_Init_def)

lemma printRemap_no_error:
  "LogNoBackend p \<notin> set (printRemap lb what before after)"
proof -
  have "LogNoBackend p \<notin> set (snd (remap_loop before after ks n))" for ks n
    by (induction ks arbitrary: n) (auto simp: Let_def case_prod_beta split: option.splits)
  then show ?thesis by (simp add: printRemap_def case_prod_beta)
qed

lemma add_event_wf:
  fixes b :: Backend
  assumes "strategy_wf (strategy lb)" and "length (lb_backends lb) + 1 < 2 ^ 32"
  defines "lbI \<equiv> lb\<lparr>lb_backends := lb_backends lb @ [b],
                      strategy := Init (strategy lb) (lb_backends lb @ [b])\<rparr>"
  shows "\<exists>st'. snapshot_strategy lbI = Some st' \<and>
           handle_event lb (add_event b) =
             Inr (True, lbI\<lparr>strategy := st'\<rparr>,
                  printRemap lb ''ADD'' (Some (snapshot_map lb)) (snapshot_map lbI)) \<and>
           strategy_wf st' \<and>
           mset (strategy_backends st') = mset (lb_backends lb @ [b]) \<and>
           (keeps_no_cursor (strategy lb) \<longrightarrow> st' = Init (strategy lb) (lb_backends lb @ [b]))"
proof -
  from snapshot_wf[OF assms(1)] obtain st1 where
    s1: "snapshot lb = Inr (snapshot_map lb, lb\<lparr>strategy := st1\<rparr>)" and o1: "step_ok (strategy lb) st1"
    by blast
  have i: "Init st1 (lb_backends lb @ [b]) = Init (strategy lb) (lb_backends lb @ [b])"
    using o1 by (simp add: step_ok_def)
  have "strategy_wf (strategy lbI)"
    using assms(2) by (simp add: lbI_def Init_wf)
  from snapshot_wf[OF this] obtain st' where
    s2: "snapshot lbI = Inr (snapshot_map lbI, lbI\<lparr>strategy := st'\<rparr>)"
    and ss: "snapshot_strategy lbI = Some st'" and o2: "step_ok (strategy lbI) st'" by blast
  have h0: "handle_event lb (add_event b) =
      (case snapshot lbI of
         Inl p \<Rightarrow> Inl p
       | Inr (after, lb4) \<Rightarrow>
           Inr (True, lb4, printRemap lb4 ''ADD'' (Some (snapshot_map lb)) after))"
    using s1
    by (simp add: handle_event_def add_event_def CMD_BackendAdd_def CMD_Exit_def Let_def i lbI_def)
  have pr: "printRemap (lbI\<lparr>strategy := st'\<rparr>) ''ADD'' (Some (snapshot_map lb)) (snapshot_map lbI)
            = printRemap lb ''ADD'' (Some (snapshot_map lb)) (snapshot_map lbI)"
    by (simp add: printRemap_def lbI_def)
  have h: "handle_event lb (add_event b) =
             Inr (True, lbI\<lparr>strategy := st'\<rparr>,
                  printRemap lb ''ADD'' (Some (snapshot_map lb)) (snapshot_map lbI))"
    unfolding h0 s2 by (simp add: pr)
  have "strategy_backends st' = strategy_backends (Init (strategy lb) (lb_backends lb @ [b]))"
    using o2 by (simp add: step_ok_def lbI_def)
  then have m: "mset (strategy_backends st') = mset (lb_backends lb @ [b])"
    by (simp only: Init_backends)
  have k: "keeps_no_cursor (strategy lb) \<longrightarrow> st' = Init (strategy lb) (lb_backends lb @ [b])"
  proof
    assume "keeps_no_cursor (strategy lb)"
    then have "keeps_no_cursor (Init (strategy lb) (lb_backends lb @ [b]))"
      by (cases "strategy lb") simp_all
    then show "st' = Init (strategy lb) (lb_backends lb @ [b])"
      using o2 by (simp add: step_ok_def lbI_def)
  qed
  have w: "strategy_wf st'" using o2 by (simp add: step_ok_def)
  show ?thesis using ss h w m k by blast
qed

text \<open>
  The control plane keeps the strategy in a state where \<^verbatim>\<open>GetNextBackend\<close> cannot panic:
  every command that returns leaves such a state, with at most one backend more, and so
  does every run of fewer than \<open>2\<^sup>3\<^sup>2 - 5\<close> commands from the initial balancer.
\<close>

lemma strategy_by_name_wf: "length bs < 2 ^ 32 \<Longrightarrow> strategy_wf (strategy_by_name name bs)"
  by (simp add: strategy_by_name_def NewRRBalancingStrategy_def NewStaticBalancingStrategy_def
      NewSimpleHashStrategy_def SimpleHash_Init_def RR_Init_def Static_Init_def)

lemma removeBackend_length:
  "removeBackend lb host port = (ok, lbr) \<Longrightarrow>
     strategy lbr = strategy lb \<and> length (lb_backends lbr) \<le> length (lb_backends lb)"
  by (auto simp: removeBackend_def Let_def split: if_splits)

lemma snapshot_keeps:
  assumes "strategy_wf (strategy lb)" and "snapshot lb = Inr (m, lb1)"
  shows "strategy_wf (strategy lb1) \<and> lb_backends lb1 = lb_backends lb"
proof -
  from snapshot_wf[OF assms(1)] obtain st' where
    "snapshot lb = Inr (snapshot_map lb, lb\<lparr>strategy := st'\<rparr>)" "step_ok (strategy lb) st'"
    by blast
  with assms(2) show ?thesis by (auto simp: step_ok_def)
qed

lemma handle_event_wf:
  assumes w: "strategy_wf (strategy lb)" and l: "length (lb_backends lb) + 1 < 2 ^ 32"
    and h: "handle_event lb ev = Inr (go, lb', lg)"
  shows "strategy_wf (strategy lb') \<and> length (lb_backends lb') \<le> length (lb_backends lb) + 1"
proof -
  from snapshot_wf[OF w] obtain st1 where
    s1: "snapshot lb = Inr (snapshot_map lb, lb\<lparr>strategy := st1\<rparr>)" and o1: "step_ok (strategy lb) st1"
    by blast
  define lb1 where "lb1 = lb\<lparr>strategy := st1\<rparr>"
  have w1: "strategy_wf (strategy lb1)" and b1: "lb_backends lb1 = lb_backends lb"
    using o1 by (simp_all add: lb1_def step_ok_def)
  consider (exit) "EventName ev = CMD_Exit"
    | (add) "EventName ev = CMD_BackendAdd"
    | (remove) "EventName ev = CMD_BackendRemove"
    | (change) "EventName ev = CMD_StrategyChange"
    | (showm) "EventName ev = CMD_ShowMapping"
    | (other) "EventName ev \<noteq> CMD_Exit" "EventName ev \<noteq> CMD_BackendAdd"
        "EventName ev \<noteq> CMD_BackendRemove" "EventName ev \<noteq> CMD_StrategyChange"
        "EventName ev \<noteq> CMD_ShowMapping"
    by blast
  then show ?thesis
  proof cases
    case exit
    with h w show ?thesis by (simp add: handle_event_def)
  next
    case other
    with h w show ?thesis by (simp add: handle_event_def)
  next
    case showm
    with h s1 have "lb' = lb1"
      by (auto simp: handle_event_def lb1_def CMD_Exit_def CMD_BackendAdd_def CMD_BackendRemove_def
          CMD_StrategyChange_def CMD_ShowMapping_def)
    with w1 b1 show ?thesis by simp
  next
    case add
    from h add s1 obtain backend where d: "Data ev = DataBackend backend"
      by (cases "Data ev") (auto simp: handle_event_def CMD_Exit_def CMD_BackendAdd_def)
    define lbi where "lbi = lb1\<lparr>lb_backends := lb_backends lb1 @ [backend],
       strategy := Init (strategy lb1) (lb_backends lb1 @ [backend])\<rparr>"
    have w3: "strategy_wf (strategy lbi)" using l b1 by (simp add: lbi_def Init_wf)
    from h add s1 d obtain m4 where "snapshot lbi = Inr (m4, lb')"
      by (auto simp: handle_event_def CMD_Exit_def CMD_BackendAdd_def Let_def lbi_def lb1_def
          split: sum.splits)
    from snapshot_keeps[OF w3 this] b1 show ?thesis by (simp add: lbi_def)
  next
    case change
    from h change s1 obtain name where d: "Data ev = DataString name"
      by (cases "Data ev") (auto simp: handle_event_def CMD_Exit_def CMD_BackendAdd_def
          CMD_BackendRemove_def CMD_StrategyChange_def)
    define lbr where "lbr = lb1\<lparr>strategy := strategy_by_name name (lb_backends lb1)\<rparr>"
    have w2: "strategy_wf (strategy lbr)" using l b1 by (simp add: lbr_def strategy_by_name_wf)
    from h change s1 d obtain m3 where "snapshot lbr = Inr (m3, lb')"
      by (auto simp: handle_event_def CMD_Exit_def CMD_BackendAdd_def CMD_BackendRemove_def
          CMD_StrategyChange_def Let_def lbr_def lb1_def split: sum.splits)
    from snapshot_keeps[OF w2 this] b1 show ?thesis by (simp add: lbr_def)
  next
    case remove
    from h remove s1 obtain port where d: "Data ev = DataInt port"
      by (cases "Data ev") (auto simp: handle_event_def CMD_Exit_def CMD_BackendAdd_def
          CMD_BackendRemove_def)
    obtain ok lbr where r: "removeBackend lb1 ''localhost'' port = (ok, lbr)"
      by (cases "removeBackend lb1 ''localhost'' port") blast
    from removeBackend_length[OF r] have s2: "strategy lbr = strategy lb1"
      and l2: "length (lb_backends lbr) \<le> length (lb_backends lb1)" by simp_all
    show ?thesis
    proof (cases ok)
      case False
      with h remove s1 d r have "lb' = lbr"
        by (auto simp: handle_event_def CMD_Exit_def CMD_BackendAdd_def CMD_BackendRemove_def
            lb1_def)
      with s2 l2 w1 b1 show ?thesis by simp
    next
      case True
      define lbi where "lbi = lbr\<lparr>strategy := Init (strategy lbr) (lb_backends lbr)\<rparr>"
      have w3: "strategy_wf (strategy lbi)" using l l2 b1 by (simp add: lbi_def Init_wf)
      from h remove s1 d r True obtain m4 where "snapshot lbi = Inr (m4, lb')"
        by (auto simp: handle_event_def CMD_Exit_def CMD_BackendAdd_def CMD_BackendRemove_def
            Let_def lbi_def lb1_def split: sum.splits)
      from snapshot_keeps[OF w3 this] l2 b1 show ?thesis by (simp add: lbi_def)
    qed
  qed
qed

lemma run_events_wf:
  "strategy_wf (strategy lb) \<Longrightarrow> length (lb_backends lb) + length evs < 2 ^ 32 \<Longrightarrow>
   run_events lb evs = Inr lb' \<Longrightarrow>
   strategy_wf (strategy lb') \<and> length (lb_backends lb') \<le> length (lb_backends lb) + length evs"
proof (induction evs arbitrary: lb)
  case Nil
  then show ?case by simp
next
  case (Cons ev evs)
  from Cons.prems(3) obtain go lb1 lg where h: "handle_event lb ev = Inr (go, lb1, lg)"
    by (cases "handle_event lb ev") auto
  from Cons.prems(2) have l: "length (lb_backends lb) + 1 < 2 ^ 32" by simp
  from handle_event_wf[OF Cons.prems(1) l h] have w1: "strategy_wf (strategy lb1)"
    and l1: "length (lb_backends lb1) \<le> length (lb_backends lb) + 1" by simp_all
  show ?case
  proof (cases go)
    case False
    with Cons.prems(3) h have "lb' = lb1" by simp
    with w1 l1 show ?thesis by simp
  next
    case True
    with Cons.prems(3) h have r: "run_events lb1 evs = Inr lb'" by simp
    from l1 Cons.prems(2) have "length (lb_backends lb1) + length evs < 2 ^ 32" by simp
    from Cons.IH[OF w1 this r] l1 show ?thesis by simp
  qed
qed

lemma reachable_wf:
  assumes "length evs + 5 < 2 ^ 32" and "run_events InitLB evs = Inr lb"
  shows "strategy_wf (strategy lb) \<and> length (lb_backends lb) + 1 < 2 ^ 32"
proof -
  have w: "strategy_wf (strategy InitLB)" by (simp add: InitLB_def Let_def)
  have b: "length (lb_backends InitLB) = 4" by (simp add: InitLB_def Let_def)
  from assms(1) b have "length (lb_backends InitLB) + length evs < 2 ^ 32" by simp
  from run_events_wf[OF w this assms(2)] b assms(1) show ?thesis by simp
qed

text \<open>
  Claim C5, as amended. \<^verbatim>\<open>backend:add\<close> makes no check for an identity already present.
  Whatever the active strategy, in a state where it cannot panic and with room for one
  more backend below \<open>2\<^sup>3\<^sup>2\<close>, the handler returns and goes on: the backend is appended
  to the topology, the strategy is initialised again over the longer list, the
  after-snapshot is taken on it and the \<^verbatim>\<open>ADD\<close> report is logged. What the handler leaves
  is the strategy as that snapshot leaves it, over the backends of the longer list; for
  simple hash, static and consistent hash that is exactly the re-initialised strategy.
  No line of the report is an error line. In any state at all the handler either panics
  in a snapshot or appends the backend.
\<close>

theorem add_always_appends:
  "(outcome_backends (handle_event lb (add_event b)) = None \<or>
    outcome_backends (handle_event lb (add_event b)) = Some (lb_backends lb @ [b])) \<and>
   (strategy lb = ConsistentHash c \<longrightarrow>
      handle_event lb (add_event b) =
        Inr (True,
             lb\<lparr>lb_backends := lb_backends lb @ [b],
                strategy := ConsistentHash (CH_Init c (lb_backends lb @ [b]))\<rparr>,
             printRemap lb ''ADD'' (Some (snapshot_map lb))
               (snapshot_map (lb\<lparr>lb_backends := lb_backends lb @ [b],
                  strategy := ConsistentHash (CH_Init c (lb_backends lb @ [b]))\<rparr>)))) \<and>
   (strategy_wf (strategy lb) \<and> length (lb_backends lb) + 1 < 2 ^ 32 \<longrightarrow>
      (\<exists>st'. snapshot_strategy (lb\<lparr>lb_backends := lb_backends lb @ [b],
                  strategy := Init (strategy lb) (lb_backends lb @ [b])\<rparr>) = Some st' \<and>
         handle_event lb (add_event b) =
           Inr (True,
                lb\<lparr>lb_backends := lb_backends lb @ [b], strategy := st'\<rparr>,
                printRemap lb ''ADD'' (Some (snapshot_map lb))
                  (snapshot_map (lb\<lparr>lb_backends := lb_backends lb @ [b],
                     strategy := Init (strategy lb) (lb_backends lb @ [b])\<rparr>))) \<and>
         strategy_wf st' \<and>
         mset (strategy_backends st') = mset (lb_backends lb @ [b]) \<and>
         (keeps_no_cursor (strategy lb) \<longrightarrow> st' = Init (strategy lb) (lb_backends lb @ [b])))) \<and>
   LogNoBackend p \<notin> set (printRemap lb ''ADD'' before after)"
proof (intro conjI impI)
  show "outcome_backends (handle_event lb (add_event b)) = None \<or>
    outcome_backends (handle_event lb (add_event b)) = Some (lb_backends lb @ [b])"
    by (rule add_event_any)
next
  assume "strategy lb = ConsistentHash c"
  from add_event_CH[OF this, of b]
  show "handle_event lb (add_event b) =
        Inr (True,
             lb\<lparr>lb_backends := lb_backends lb @ [b],
                strategy := ConsistentHash (CH_Init c (lb_backends lb @ [b]))\<rparr>,
             printRemap lb ''ADD'' (Some (snapshot_map lb))
               (snapshot_map (lb\<lparr>lb_backends := lb_backends lb @ [b],
                  strategy := ConsistentHash (CH_Init c (lb_backends lb @ [b]))\<rparr>)))"
    by (simp add: printRemap_def)
next
  assume a: "strategy_wf (strategy lb) \<and> length (lb_backends lb) + 1 < 2 ^ 32"
  then have w: "strategy_wf (strategy lb)" and l: "length (lb_backends lb) + 1 < 2 ^ 32"
    by simp_all
  from add_event_wf[OF w l, of b]
  show "\<exists>st'. snapshot_strategy (lb\<lparr>lb_backends := lb_backends lb @ [b],
                  strategy := Init (strategy lb) (lb_backends lb @ [b])\<rparr>) = Some st' \<and>
         handle_event lb (add_event b) =
           Inr (True,
                lb\<lparr>lb_backends := lb_backends lb @ [b], strategy := st'\<rparr>,
                printRemap lb ''ADD'' (Some (snapshot_map lb))
                  (snapshot_map (lb\<lparr>lb_backends := lb_backends lb @ [b],
                     strategy := Init (strategy lb) (lb_backends lb @ [b])\<rparr>))) \<and>
         strategy_wf st' \<and>
         mset (strategy_backends st') = mset (lb_backends lb @ [b]) \<and>
         (keeps_no_cursor (strategy lb) \<longrightarrow> st' = Init (strategy lb) (lb_backends lb @ [b]))"
    by simp
next
  show "LogNoBackend p \<notin> set (printRemap lb ''ADD'' before after)"
    by (rule printRemap_no_error)
qed

theorem add_always_appends_witness:
  "strategy InitLB = ConsistentHash (NewConsistentHashStrategy (lb_backends InitLB)) \<and>
   outcome_backends (handle_event InitLB (add_event (seed 8085))) =
     Some [seed 8081, seed 8082, seed 8083, seed 8084, seed 8085] \<and>
   strategy_wf (strategy lb5) \<and> length (lb_backends lb5) + 1 < (2::nat) ^ 32 \<and>
   outcome_backends (handle_event lb5 (add_event (seed 8081))) =
     Some [seed 8081, seed 8082, seed 8083, seed 8084, seed 8085, seed 8081] \<and>
   strategy_wf (strategy InitLB) \<and> length (lb_backends InitLB) + 1 < (2::nat) ^ 32 \<and>
   keeps_no_cursor (strategy InitLB) \<and>
   snapshot_strategy (InitLB\<lparr>lb_backends := lb_backends InitLB @ [seed 8081],
       strategy := Init (strategy InitLB) (lb_backends InitLB @ [seed 8081])\<rparr>)
     = Some (Init (strategy InitLB) (lb_backends InitLB @ [seed 8081]))"
proof -
  have h: "strategy InitLB = ConsistentHash (NewConsistentHashStrategy (lb_backends InitLB))"
    by (simp add: InitLB_def Let_def)
  have b: "lb_backends InitLB = [seed 8081, seed 8082, seed 8083, seed 8084]"
    by (simp add: InitLB_def Let_def)
  from add_always_appends[of InitLB "seed 8085" "NewConsistentHashStrategy (lb_backends InitLB)"] h
  have "handle_event InitLB (add_event (seed 8085)) =
        Inr (True,
             InitLB\<lparr>lb_backends := lb_backends InitLB @ [seed 8085],
                strategy := ConsistentHash (CH_Init (NewConsistentHashStrategy (lb_backends InitLB))
                                             (lb_backends InitLB @ [seed 8085]))\<rparr>,
             printRemap InitLB ''ADD'' (Some (snapshot_map InitLB))
               (snapshot_map (InitLB\<lparr>lb_backends := lb_backends InitLB @ [seed 8085],
                  strategy := ConsistentHash (CH_Init (NewConsistentHashStrategy (lb_backends InitLB))
                                               (lb_backends InitLB @ [seed 8085]))\<rparr>)))"
    by blast
  then have "outcome_backends (handle_event InitLB (add_event (seed 8085))) =
     Some (lb_backends InitLB @ [seed 8085])"
    by (simp add: outcome_backends_def)
  then have one: "outcome_backends (handle_event InitLB (add_event (seed 8085))) =
     Some [seed 8081, seed 8082, seed 8083, seed 8084, seed 8085]"
    by (simp add: b)
  have w5: "strategy_wf (strategy lb5)"
    by (simp add: lb5_def NewRRBalancingStrategy_def RR_Init_def five_def)
  have l5: "length (lb_backends lb5) + 1 < (2::nat) ^ 32" by (simp add: lb5_def five_def)
  from add_always_appends[of lb5 "seed 8081"] w5 l5
  obtain st' where "handle_event lb5 (add_event (seed 8081)) =
           Inr (True,
                lb5\<lparr>lb_backends := lb_backends lb5 @ [seed 8081], strategy := st'\<rparr>,
                printRemap lb5 ''ADD'' (Some (snapshot_map lb5))
                  (snapshot_map (lb5\<lparr>lb_backends := lb_backends lb5 @ [seed 8081],
                     strategy := Init (strategy lb5) (lb_backends lb5 @ [seed 8081])\<rparr>)))"
    by blast
  then have two: "outcome_backends (handle_event lb5 (add_event (seed 8081))) =
     Some [seed 8081, seed 8082, seed 8083, seed 8084, seed 8085, seed 8081]"
    by (simp add: outcome_backends_def lb5_def five_def)
  have wi: "strategy_wf (strategy InitLB)" by (simp add: h)
  have li: "length (lb_backends InitLB) + 1 < (2::nat) ^ 32" by (simp add: b)
  have ki: "keeps_no_cursor (strategy InitLB)" by (simp add: h)
  from add_always_appends[of InitLB "seed 8081"] wi li ki
  have three: "snapshot_strategy (InitLB\<lparr>lb_backends := lb_backends InitLB @ [seed 8081],
       strategy := Init (strategy InitLB) (lb_backends InitLB @ [seed 8081])\<rparr>)
     = Some (Init (strategy InitLB) (lb_backends InitLB @ [seed 8081]))"
    by blast
  show ?thesis using h one w5 l5 two wi li ki three by blast
qed

theorem duplicate_add_counterexample:
  "lb_backends InitLB = [seed 8081, seed 8082, seed 8083, seed 8084] \<and>
   outcome_backends (handle_event InitLB (add_event (seed 8081))) =
     Some [seed 8081, seed 8082, seed 8083, seed 8084, seed 8081] \<and>
   map_option hd (outcome_log (handle_event InitLB (add_event (seed 8081)))) = Some (LogBanner ''ADD'')"
proof -
  have h: "strategy InitLB = ConsistentHash (NewConsistentHashStrategy (lb_backends InitLB))"
    by (simp add: InitLB_def Let_def)
  have b: "lb_backends InitLB = [seed 8081, seed 8082, seed 8083, seed 8084]"
    by (simp add: InitLB_def Let_def)
  show ?thesis
    unfolding add_event_CH[OF h, of "seed 8081"]
    by (simp add: outcome_backends_def outcome_log_def b printRemap_def case_prod_beta)
qed

lemma failed_remove_CH:
  assumes "strategy lb = ConsistentHash c"
    and "\<forall>b\<in>set (lb_backends lb). \<not> (Host b = ''localhost'' \<and> Port b = port)"
  shows "handle_event lb \<lparr>EventName = CMD_BackendRemove, Data = DataInt port\<rparr> =
           Inr (True, lb, [LogNoBackend port])"
proof -
  have s1: "snapshot lb = Inr (snapshot_map lb, lb)" by (rule snapshot_CH_map[OF assms(1)])
  have "find_idx (lb_backends lb) 0 ''localhost'' port = - 1"
    using assms(2) by (rule find_idx_absent)
  then have r: "removeBackend lb ''localhost'' port = (False, lb)"
    by (simp add: removeBackend_def)
  have n: "CMD_BackendRemove \<noteq> CMD_Exit" "CMD_BackendRemove \<noteq> CMD_BackendAdd"
    by (simp_all add: CMD_BackendRemove_def CMD_Exit_def CMD_BackendAdd_def)
  show ?thesis using n by (simp add: handle_event_def s1 r)
qed

subsection \<open>Reaching the round-robin state by commands\<close>

lemma snapshot_RR:
  assumes "strategy lb = RoundRobin \<lparr>rr_Index = int c, rr_Backends = bs\<rparr>" "c < length bs"
  shows "snapshot lb = Inr (snapshot_map lb,
           lb\<lparr>strategy := RoundRobin \<lparr>rr_Index = int ((c + length (demoKeys lb)) mod length bs),
                                       rr_Backends = bs\<rparr>\<rparr>)"
proof -
  obtain m where "snapshot_loop (RoundRobin \<lparr>rr_Index = int c, rr_Backends = bs\<rparr>) (demoKeys lb) Map.empty =
      Inr (m, RoundRobin \<lparr>rr_Index = int ((c + length (demoKeys lb)) mod length bs), rr_Backends = bs\<rparr>)"
    using snapshot_loop_RR[OF assms(2)] by blast
  then show ?thesis using assms(1) by (simp add: snapshot_def snapshot_map_def)
qed

lemma show_RR:
  assumes "strategy lb = RoundRobin \<lparr>rr_Index = int c, rr_Backends = bs\<rparr>" "c < length bs"
  shows "\<exists>lg. handle_event lb show_event =
           Inr (True, lb\<lparr>strategy := RoundRobin \<lparr>rr_Index = int ((c + length (demoKeys lb)) mod length bs),
                                       rr_Backends = bs\<rparr>\<rparr>, lg)"
  by (simp add: handle_event_def show_event_def snapshot_RR[OF assms]
      CMD_ShowMapping_def CMD_Exit_def CMD_BackendAdd_def CMD_BackendRemove_def CMD_StrategyChange_def)

lemma show_lbrr:
  assumes "c < 5"
  shows "\<exists>lg. handle_event (lbrr c) show_event = Inr (True, lbrr ((c + 12) mod 5), lg)"
proof -
  have l: "length five = 5" by (simp add: five_def)
  have d: "length (demoKeys (lbrr c)) = 12" by (simp add: lbrr_def InitLB_def Let_def)
  have s: "strategy (lbrr c) = RoundRobin \<lparr>rr_Index = int c, rr_Backends = five\<rparr>"
    by (simp add: lbrr_def)
  have c: "c < length five" using assms l by simp
  from show_RR[OF s c] obtain lg where "handle_event (lbrr c) show_event =
           Inr (True, (lbrr c)\<lparr>strategy := RoundRobin \<lparr>rr_Index = int ((c + length (demoKeys (lbrr c))) mod length five),
                                       rr_Backends = five\<rparr>\<rparr>, lg)" by blast
  then have "handle_event (lbrr c) show_event =
           Inr (True, (lbrr c)\<lparr>strategy := RoundRobin \<lparr>rr_Index = int ((c + 12) mod 5),
                                       rr_Backends = five\<rparr>\<rparr>, lg)"
    by (simp only: d l)
  moreover have "(lbrr c)\<lparr>strategy := RoundRobin \<lparr>rr_Index = int ((c + 12) mod 5),
                                       rr_Backends = five\<rparr>\<rparr> = lbrr ((c + 12) mod 5)"
    by (simp add: lbrr_def)
  ultimately have "handle_event (lbrr c) show_event = Inr (True, lbrr ((c + 12) mod 5), lg)"
    by simp
  then show ?thesis by blast
qed

lemma change_to_rr:
  "\<exists>lg. handle_event InitLB \<lparr>EventName = CMD_StrategyChange, Data = DataString ''rr''\<rparr> =
     Inr (True, InitLB\<lparr>strategy := RoundRobin \<lparr>rr_Index = 0, rr_Backends = lb_backends InitLB\<rparr>\<rparr>, lg)"
proof -
  have h: "strategy InitLB = ConsistentHash (NewConsistentHashStrategy (lb_backends InitLB))"
    by (simp add: InitLB_def Let_def)
  have s1: "snapshot InitLB = Inr (snapshot_map InitLB, InitLB)" by (rule snapshot_CH_map[OF h])
  define lb1 where "lb1 = InitLB\<lparr>strategy := strategy_by_name ''rr'' (lb_backends InitLB)\<rparr>"
  have st: "strategy lb1 = RoundRobin \<lparr>rr_Index = int 0, rr_Backends = lb_backends InitLB\<rparr>"
    by (simp add: lb1_def strategy_by_name_def NewRRBalancingStrategy_def RR_Init_def)
  have l: "0 < length (lb_backends InitLB)" by (simp add: InitLB_def Let_def)
  have d: "length (demoKeys lb1) = 12" "length (lb_backends InitLB) = 4"
    by (simp_all add: lb1_def InitLB_def Let_def)
  have s2: "snapshot lb1 = Inr (snapshot_map lb1,
      lb1\<lparr>strategy := RoundRobin \<lparr>rr_Index = int ((0 + length (demoKeys lb1)) mod length (lb_backends InitLB)),
                                       rr_Backends = lb_backends InitLB\<rparr>\<rparr>)"
    by (rule snapshot_RR[OF st l])
  have e: "lb1\<lparr>strategy := RoundRobin \<lparr>rr_Index = int ((0 + length (demoKeys lb1)) mod length (lb_backends InitLB)),
                                       rr_Backends = lb_backends InitLB\<rparr>\<rparr>
           = InitLB\<lparr>strategy := RoundRobin \<lparr>rr_Index = 0, rr_Backends = lb_backends InitLB\<rparr>\<rparr>"
    by (simp add: d) (simp add: lb1_def)
  show ?thesis
    using s1 s2 unfolding e
    by (simp add: handle_event_def lb1_def[symmetric]
      CMD_ShowMapping_def CMD_Exit_def CMD_BackendAdd_def CMD_BackendRemove_def CMD_StrategyChange_def)
qed

lemma add_under_rr:
  "\<exists>lg. handle_event (InitLB\<lparr>strategy := RoundRobin \<lparr>rr_Index = 0, rr_Backends = lb_backends InitLB\<rparr>\<rparr>)
           (add_event (seed 8085)) = Inr (True, lbrr 2, lg)"
proof -
  define lb0 where "lb0 = InitLB\<lparr>strategy := RoundRobin \<lparr>rr_Index = 0, rr_Backends = lb_backends InitLB\<rparr>\<rparr>"
  have b: "lb_backends InitLB = [seed 8081, seed 8082, seed 8083, seed 8084]"
    by (simp add: InitLB_def Let_def)
  have st0: "strategy lb0 = RoundRobin \<lparr>rr_Index = int 0, rr_Backends = lb_backends InitLB\<rparr>"
    by (simp add: lb0_def)
  have l0: "0 < length (lb_backends InitLB)" by (simp add: b)
  have d0: "length (demoKeys lb0) = 12" by (simp add: lb0_def InitLB_def Let_def)
  have s1: "snapshot lb0 = Inr (snapshot_map lb0, lb0)"
    using snapshot_RR[OF st0 l0] by (simp add: d0 b) (simp add: lb0_def b)
  define lb3 where "lb3 = lb0\<lparr>lb_backends := lb_backends lb0 @ [seed 8085],
      strategy := Init (strategy lb0) (lb_backends lb0 @ [seed 8085])\<rparr>"
  have f: "lb_backends lb0 @ [seed 8085] = five" by (simp add: lb0_def b five_def)
  have st3: "strategy lb3 = RoundRobin \<lparr>rr_Index = int 0, rr_Backends = five\<rparr>"
    by (simp add: lb3_def f) (simp add: lb0_def RR_Init_def)
  have l3: "0 < length five" by (simp add: five_def)
  have d3: "length (demoKeys lb3) = 12" "length five = 5"
    by (simp_all add: lb3_def lb0_def InitLB_def Let_def five_def)
  have s2: "snapshot lb3 = Inr (snapshot_map lb3, lbrr 2)"
  proof -
    have "lb3\<lparr>strategy := RoundRobin \<lparr>rr_Index = int ((0 + length (demoKeys lb3)) mod length five),
                                       rr_Backends = five\<rparr>\<rparr> = lbrr 2"
      by (simp add: d3) (simp add: lb3_def lb0_def lbrr_def InitLB_def Let_def five_def)
    then show ?thesis using snapshot_RR[OF st3 l3] by simp
  qed
  have "handle_event lb0 (add_event (seed 8085)) =
          Inr (True, lbrr 2, printRemap (lbrr 2) ''ADD'' (Some (snapshot_map lb0)) (snapshot_map lb3))"
    using s1 s2
    by (simp add: handle_event_def add_event_def Let_def lb3_def[symmetric]
        CMD_Exit_def CMD_BackendAdd_def)
  then show ?thesis unfolding lb0_def by blast
qed

lemma lbrr_0: "lbrr 0 = lb5"
  by (simp add: lbrr_def lb5_def NewRRBalancingStrategy_def RR_Init_def)

lemma lb5_reachable:
  "run_events InitLB
     [\<lparr>EventName = CMD_StrategyChange, Data = DataString ''rr''\<rparr>, add_event (seed 8085),
      show_event, show_event, show_event, show_event] = Inr lb5"
proof -
  obtain g1 where e1: "handle_event InitLB \<lparr>EventName = CMD_StrategyChange, Data = DataString ''rr''\<rparr> =
     Inr (True, InitLB\<lparr>strategy := RoundRobin \<lparr>rr_Index = 0, rr_Backends = lb_backends InitLB\<rparr>\<rparr>, g1)"
    using change_to_rr by blast
  obtain g2 where e2: "handle_event (InitLB\<lparr>strategy := RoundRobin \<lparr>rr_Index = 0, rr_Backends = lb_backends InitLB\<rparr>\<rparr>)
           (add_event (seed 8085)) = Inr (True, lbrr 2, g2)"
    using add_under_rr by blast
  obtain g3 where e3: "handle_event (lbrr 2) show_event = Inr (True, lbrr 4, g3)"
    using show_lbrr[of 2] by auto
  obtain g4 where e4: "handle_event (lbrr 4) show_event = Inr (True, lbrr 1, g4)"
    using show_lbrr[of 4] by auto
  obtain g5 where e5: "handle_event (lbrr 1) show_event = Inr (True, lbrr 3, g5)"
    using show_lbrr[of 1] by auto
  have r: "run_events lb5 [] = Inr lb5" by simp
  obtain g6 where e6: "handle_event (lbrr 3) show_event = Inr (True, lbrr 0, g6)"
    using show_lbrr[of 3] by auto
  show ?thesis
    by (simp only: run_events.simps e1 e2 e3 e4 e5 e6 lbrr_0 sum.case prod.case if_True)
qed

subsection \<open>What a snapshot does to the cursor\<close>

text \<open>
  Claim C4. The commands \<^verbatim>\<open>strat rr\<close>, \<^verbatim>\<open>add 8085\<close> and four times \<^verbatim>\<open>show\<close> take the
  initial balancer to five backends under round robin with the cursor at 0. There one
  snapshot over the twelve demo keys leaves the cursor at 2: computing a snapshot does
  change the state of the strategy, by twelve calls of \<^verbatim>\<open>GetNextBackend\<close>.
\<close>

theorem snapshot_moves_cursor:
  "run_events InitLB
     [\<lparr>EventName = CMD_StrategyChange, Data = DataString ''rr''\<rparr>, add_event (seed 8085),
      show_event, show_event, show_event, show_event] = Inr lb5 \<and>
   strategy lb5 = RoundRobin \<lparr>rr_Index = 0, rr_Backends = five\<rparr> \<and>
   snapshot_strategy lb5 = Some (RoundRobin \<lparr>rr_Index = 2, rr_Backends = five\<rparr>)"
proof -
  obtain m where "snapshot lb5 = Inr (m, lb5\<lparr>strategy := RoundRobin \<lparr>rr_Index = 2, rr_Backends = five\<rparr>\<rparr>)"
    using snapshot_lb5 by blast
  then have "strategy lb5 = RoundRobin \<lparr>rr_Index = 0, rr_Backends = five\<rparr> \<and>
     snapshot_strategy lb5 = Some (RoundRobin \<lparr>rr_Index = 2, rr_Backends = five\<rparr>)"
    by (simp add: snapshot_strategy_def lb5_def NewRRBalancingStrategy_def RR_Init_def)
  then show ?thesis using lb5_reachable by blast
qed

text \<open>
  Claim C6. In the same state (five backends under round robin, the cursor at 0) a
  \<^verbatim>\<open>backend:remove\<close> for port 9999, which no backend has, logs
  \<^verbatim>\<open>no backend found on port 9999\<close> and leaves the topology as it was, but the strategy's
  cursor is at 2 afterwards: the snapshot taken before the lookup has moved it.
\<close>

theorem failed_remove_moves_cursor:
  "run_events InitLB
     [\<lparr>EventName = CMD_StrategyChange, Data = DataString ''rr''\<rparr>, add_event (seed 8085),
      show_event, show_event, show_event, show_event] = Inr lb5 \<and>
   handle_event lb5 \<lparr>EventName = CMD_BackendRemove, Data = DataInt 9999\<rparr> =
     Inr (True, lb5\<lparr>strategy := RoundRobin \<lparr>rr_Index = 2, rr_Backends = five\<rparr>\<rparr>, [LogNoBackend 9999]) \<and>
   strategy lb5 = RoundRobin \<lparr>rr_Index = 0, rr_Backends = five\<rparr>"
proof -
  obtain m where m: "snapshot lb5 = Inr (m, lb5\<lparr>strategy := RoundRobin \<lparr>rr_Index = 2, rr_Backends = five\<rparr>\<rparr>)"
    using snapshot_lb5 by blast
  have "find_idx five 0 ''localhost'' 9999 = - 1"
    by (rule find_idx_absent) (simp add: five_def seed_def)
  then have r: "removeBackend (lb5\<lparr>strategy := RoundRobin \<lparr>rr_Index = 2, rr_Backends = five\<rparr>\<rparr>) ''localhost'' 9999
       = (False, lb5\<lparr>strategy := RoundRobin \<lparr>rr_Index = 2, rr_Backends = five\<rparr>\<rparr>)"
    by (simp add: removeBackend_def lb5_def)
  have n: "CMD_BackendRemove \<noteq> CMD_Exit" "CMD_BackendRemove \<noteq> CMD_BackendAdd"
    by (simp_all add: CMD_BackendRemove_def CMD_Exit_def CMD_BackendAdd_def)
  have "handle_event lb5 \<lparr>EventName = CMD_BackendRemove, Data = DataInt 9999\<rparr> =
     Inr (True, lb5\<lparr>strategy := RoundRobin \<lparr>rr_Index = 2, rr_Backends = five\<rparr>\<rparr>, [LogNoBackend 9999])"
    using n by (simp add: handle_event_def m r)
  moreover have "strategy lb5 = RoundRobin \<lparr>rr_Index = 0, rr_Backends = five\<rparr>"
    by (simp add: lb5_def NewRRBalancingStrategy_def RR_Init_def)
  ultimately show ?thesis using lb5_reachable by blast
qed

end
